theory Spec2Isabelle
  imports Main "HOL-Library.Sublist" "HOL-Library.AList"
begin

section \<open>Parameter marks (storm/database.py)\<close>

text \<open>
  \<open>convert_param_marks\<close> rewrites the placeholder of a statement. The Python string
  primitives it uses are modelled on \<open>string\<close>: \<open>statement.split("'")\<close> is
  \<open>split_chr\<close> (the separator of the source is the one-character string of a single
  quote), \<open>str.replace\<close> is \<open>replace_str\<close> (leftmost, non-overlapping occurrences;
  an empty pattern matches before every character and at the end), the substring test
  \<open>in\<close> is \<open>str_contains\<close>, and \<open>"'".join\<close> is \<open>join_str\<close>. The loop
  \<open>for i in range(0, len(tokens), 2)\<close> rewrites the tokens of even index:
  \<open>replace_even g 0\<close>.
\<close>

definition quote_mark :: char where
  "quote_mark = CHR 0x27"

fun split_chr :: "char \<Rightarrow> string \<Rightarrow> string list" where
  "split_chr sep [] = [[]]"
| "split_chr sep (c # cs) =
     (if c = sep then [] # split_chr sep cs
      else (c # hd (split_chr sep cs)) # tl (split_chr sep cs))"

function replace_str :: "string \<Rightarrow> string \<Rightarrow> string \<Rightarrow> string" where
  "replace_str old new [] = (if old = [] then new else [])"
| "replace_str old new (c # cs) =
     (if old = [] then new @ c # replace_str old new cs
      else if prefix old (c # cs) then new @ replace_str old new (drop (length old) (c # cs))
      else c # replace_str old new cs)"
  by pat_completeness auto
termination
  by (relation "measure (\<lambda>(old, new, s). length s)") auto

fun str_contains :: "string \<Rightarrow> string \<Rightarrow> bool" where
  "str_contains sub [] = (sub = [])"
| "str_contains sub (c # cs) = (prefix sub (c # cs) \<or> str_contains sub cs)"

fun join_str :: "string \<Rightarrow> string list \<Rightarrow> string" where
  "join_str sep [] = []"
| "join_str sep [t] = t"
| "join_str sep (t # u # ts) = t @ sep @ join_str sep (u # ts)"

definition replace_even :: "(string \<Rightarrow> string) \<Rightarrow> nat \<Rightarrow> string list \<Rightarrow> string list" where
  "replace_even g n tokens = map (\<lambda>(i, t). if even i then g t else t) (enumerate n tokens)"

definition convert_param_marks :: "string \<Rightarrow> string \<Rightarrow> string \<Rightarrow> string" where
  "convert_param_marks statement from_param_mark to_param_mark =
     (if from_param_mark = to_param_mark \<or> \<not> str_contains from_param_mark statement
      then statement
      else join_str [quote_mark]
             (replace_even (replace_str from_param_mark to_param_mark) 0
                (split_chr quote_mark statement)))"

text \<open>
  The specification's reading of the same step, written from its words and not from the
  code: scan the statement from left to right, remember whether the position is inside a
  single-quoted literal (every quote toggles this), copy every character of a literal, and
  outside a literal put the target mark for every occurrence of the source mark.
\<close>

function spec_scan :: "bool \<Rightarrow> string \<Rightarrow> string \<Rightarrow> string \<Rightarrow> string" where
  "spec_scan in_lit f t [] = []"
| "spec_scan in_lit f t (c # cs) =
     (if c = quote_mark then c # spec_scan (\<not> in_lit) f t cs
      else if \<not> in_lit \<and> f \<noteq> [] \<and> prefix f (c # cs)
      then t @ spec_scan in_lit f t (drop (length f) (c # cs))
      else c # spec_scan in_lit f t cs)"
  by pat_completeness auto
termination
  by (relation "measure (\<lambda>(b, f, t, s). length s)") auto


definition spec_convert_param_marks :: "string \<Rightarrow> string \<Rightarrow> string \<Rightarrow> string" where
  "spec_convert_param_marks statement from_param_mark to_param_mark =
     spec_scan False from_param_mark to_param_mark statement"

section \<open>The store (storm/store.py)\<close>

subsection \<open>Values, errors and outcomes\<close>

text \<open>
  Python values, as far as the store looks at them. \<open>Undef\<close> is the marker of
  \<open>storm.expr\<close> for a field that holds no value (distinct from \<open>None\<close>),
  and a key given to \<open>get\<close> is a tuple or any other value.
\<close>

datatype pyval = Undef | PyNone | PyInt int | PyStr string | PyTuple "pyval list"

text \<open>
  Every \<open>StoreError\<close> of store.py is raised with its own message; the constructor
  names the message. The other exceptions are the ones the Python statements of the store
  raise by themselves: a failed \<open>assert\<close>, \<open>del\<close> or a subscript on a
  missing dictionary key, \<open>zip\<close> over \<open>None\<close>, a subscript out of range,
  and whatever the connection raises. A method returns its outcome together with the state
  it leaves, so that the state at a raise is part of the result.
\<close>

datatype store_error =
    PartOfAnotherStore
  | AlreadyScheduledToBeAdded
  | AlreadyInTheStore
  | NotInThisStore
  | AlreadyScheduledToBeRemoved
  | NeverFlushed
  | OrderingLoop

datatype exn = StoreError store_error | AssertionError | KeyError | TypeError | IndexError | BackendError

datatype 'a outcome = Return 'a | Raise exn

datatype pending = PENDING_ADD | PENDING_REMOVE

subsection \<open>Class and object metadata (storm.info)\<close>

text \<open>
  Modelled from the spec: the Class Descriptor that \<open>get_cls_info\<close> returns
  (storm/info.py is not part of the sources at hand): the table name, the ordered column
  names and the primary-key columns. A class is identified with its descriptor.
\<close>

record cls_info =
  table :: string
  columns :: "string list"
  primary_key :: "string list"

text \<open>
  Modelled from the spec: the Object State that \<open>get_obj_info\<close> returns
  (storm/info.py is not part of the sources at hand). The dictionary entries
  \<open>"store"\<close>, \<open>"pending"\<close> and \<open>"primary_values"\<close> that store.py reads
  and writes are the optional fields \<open>oi_store\<close>, \<open>oi_pending\<close> and
  \<open>oi_primary_values\<close>; \<open>oi_values\<close> are the current field values (a name
  without entry is undefined), \<open>oi_checkpoint\<close> the checkpointed ones,
  \<open>oi_saved\<close> the snapshot taken by \<open>save\<close>, and \<open>oi_changed_hook\<close>
  says whether \<open>_object_changed\<close> of this store is hooked to "changed". A store is
  named by a number, an object by its \<open>id\<close>.
\<close>

record obj_info =
  oi_cls :: cls_info
  oi_store :: "nat option"
  oi_pending :: "pending option"
  oi_primary_values :: "pyval list option"
  oi_values :: "(string \<times> pyval) list"
  oi_checkpoint :: "(string \<times> pyval) list"
  oi_saved :: "(nat option \<times> pending option \<times> pyval list option \<times> (string \<times> pyval) list) option"
  oi_changed_hook :: bool

text \<open>
  The expressions the store hands to its connection, and the connection itself. The
  database is outside the program: it is a parameter \<open>db\<close> that answers every call
  from the calls made so far, with rows or with a failure, so that a theorem for all
  \<open>db\<close> holds for every backend.
\<close>

datatype where_expr =
    CompareColumns "string list" "pyval list"
  | InsertIdentity "string list" "pyval list"

datatype expr =
    Select "string list" where_expr "string option" "nat option"
  | Insert "string list" "pyval list" string
  | Update "(string \<times> pyval) list" where_expr string
  | Delete where_expr string

datatype conn_call = Execute expr | ConnCommit

datatype reply = Failure | Rows "pyval list list"

type_synonym database = "conn_call list \<Rightarrow> conn_call \<Rightarrow> reply"

text \<open>
  The state of one \<open>Store\<close> together with the objects it can reach: \<open>infos\<close>
  is the heap of object states, \<open>next_obj\<close> the next identity \<open>object.__new__\<close>
  hands out, \<open>cache\<close>, \<open>ghosts\<close>, \<open>dirty\<close> and \<open>order\<close> are the
  dictionaries \<open>_cache\<close>, \<open>_ghosts\<close>, \<open>_dirty\<close> and \<open>_order\<close>
  (association lists in iteration order; \<open>_ghosts\<close> and \<open>_dirty\<close> map an
  identity to its object and are kept as the list of their keys), \<open>calls\<close> are the
  calls made on the connection and \<open>flushed\<close> the objects for which "flushed" was
  emitted, in order. Objects are assumed to stay referenced: the weak cache drops nothing.
\<close>

record store =
  self_id :: nat
  infos :: "nat \<Rightarrow> obj_info"
  next_obj :: nat
  cache :: "((cls_info \<times> pyval list) \<times> nat) list"
  ghosts :: "nat list"
  dirty :: "nat list"
  order :: "((nat \<times> nat) \<times> int) list"
  calls :: "conn_call list"
  flushed :: "nat list"

text \<open>
  The conversions of a column kind belong to the row codec, which is outside the store;
  they are taken as the identity.
\<close>

definition to_database :: "pyval \<Rightarrow> pyval" where
  "to_database v = v"

definition from_database :: "pyval \<Rightarrow> pyval" where
  "from_database v = v"

text \<open>
  Modelled from the spec: \<open>ObjectInfo.get_value(name, default)\<close> (storm/info.py is
  missing): the current value of a field, or the default when the field is undefined.
\<close>

definition get_value :: "obj_info \<Rightarrow> string \<Rightarrow> pyval \<Rightarrow> pyval" where
  "get_value obj_info name dflt =
     (case map_of (oi_values obj_info) name of None \<Rightarrow> dflt | Some v \<Rightarrow> v)"

text \<open>
  Modelled from the spec: \<open>ObjectInfo.has_value(name)\<close> (storm/info.py is missing).
\<close>

definition has_value :: "obj_info \<Rightarrow> string \<Rightarrow> bool" where
  "has_value obj_info name = (get_value obj_info name Undef \<noteq> Undef)"

text \<open>
  Modelled from the spec: \<open>ObjectInfo.checkpoint()\<close> (storm/info.py is missing):
  the snapshot of the field values against which changes are computed.
\<close>

definition checkpoint :: "obj_info \<Rightarrow> obj_info" where
  "checkpoint obj_info = obj_info\<lparr>oi_checkpoint := oi_values obj_info\<rparr>"

text \<open>
  Modelled from the spec: \<open>ObjectInfo.check_changed()\<close> (storm/info.py is missing):
  whether the current values differ from the checkpoint.
\<close>

definition check_changed :: "obj_info \<Rightarrow> bool" where
  "check_changed obj_info =
     (\<exists>name \<in> set (map fst (oi_values obj_info) @ map fst (oi_checkpoint obj_info)).
        map_of (oi_values obj_info) name \<noteq> map_of (oi_checkpoint obj_info) name)"

text \<open>
  Modelled from the spec: \<open>ObjectInfo.get_changes()\<close> (storm/info.py is missing),
  read as store.py reads it, \<open>changes.get(name, default)\<close>: the new value of a field
  that differs from the checkpoint.
\<close>

definition get_changes :: "obj_info \<Rightarrow> string \<Rightarrow> pyval \<Rightarrow> pyval" where
  "get_changes obj_info name dflt =
     (let new_value = get_value obj_info name Undef;
          old_value = (case map_of (oi_checkpoint obj_info) name of None \<Rightarrow> Undef | Some v \<Rightarrow> v)
      in if new_value \<noteq> old_value then new_value else dflt)"

text \<open>
  Modelled from the spec: \<open>ObjectInfo.save()\<close> (storm/info.py is missing): the
  snapshot that a rollback restores.
\<close>

definition save :: "obj_info \<Rightarrow> obj_info" where
  "save obj_info = obj_info\<lparr>oi_saved :=
     Some (oi_store obj_info, oi_pending obj_info, oi_primary_values obj_info, oi_values obj_info)\<rparr>"

text \<open>
  The state of an object that was never touched (what \<open>get_obj_info\<close> builds for
  a new object of a class).
\<close>

definition new_obj_info :: "cls_info \<Rightarrow> obj_info" where
  "new_obj_info cls = \<lparr>oi_cls = cls, oi_store = None, oi_pending = None,
     oi_primary_values = None, oi_values = [], oi_checkpoint = [], oi_saved = None,
     oi_changed_hook = False\<rparr>"

definition upd_info :: "store \<Rightarrow> nat \<Rightarrow> (obj_info \<Rightarrow> obj_info) \<Rightarrow> store" where
  "upd_info st obj f = st\<lparr>infos := (infos st)(obj := f (infos st obj))\<rparr>"

subsection \<open>Dirty set, ghost set, change notification\<close>

definition is_dirty :: "store \<Rightarrow> nat \<Rightarrow> bool" where
  "is_dirty st obj = (obj \<in> set (dirty st))"

definition set_dirty :: "store \<Rightarrow> nat \<Rightarrow> store" where
  "set_dirty st obj = st\<lparr>dirty := (if obj \<in> set (dirty st) then dirty st else dirty st @ [obj])\<rparr>"

definition set_clean :: "store \<Rightarrow> nat \<Rightarrow> store" where
  "set_clean st obj = st\<lparr>dirty := removeAll obj (dirty st)\<rparr>"

definition is_ghost :: "store \<Rightarrow> nat \<Rightarrow> bool" where
  "is_ghost st obj = (obj \<in> set (ghosts st))"

definition set_ghost :: "store \<Rightarrow> nat \<Rightarrow> store" where
  "set_ghost st obj = st\<lparr>ghosts := (if obj \<in> set (ghosts st) then ghosts st else ghosts st @ [obj])\<rparr>"

definition set_alive :: "store \<Rightarrow> nat \<Rightarrow> store" where
  "set_alive st obj = st\<lparr>ghosts := removeAll obj (ghosts st)\<rparr>"

definition enable_change_notification :: "store \<Rightarrow> nat \<Rightarrow> store" where
  "enable_change_notification st obj = upd_info st obj (\<lambda>i. i\<lparr>oi_changed_hook := True\<rparr>)"

definition disable_change_notification :: "store \<Rightarrow> nat \<Rightarrow> store" where
  "disable_change_notification st obj = upd_info st obj (\<lambda>i. i\<lparr>oi_changed_hook := False\<rparr>)"

definition object_changed :: "store \<Rightarrow> nat \<Rightarrow> string \<Rightarrow> pyval \<Rightarrow> pyval \<Rightarrow> store" where
  "object_changed st obj name old_value new_value =
     (if new_value \<noteq> Undef then set_dirty st obj else st)"

text \<open>
  Modelled from the spec: the checkpointed value of a field (storm/info.py is missing),
  \<open>Undef\<close> when the checkpoint holds none.
\<close>

definition checkpointed_value :: "obj_info \<Rightarrow> string \<Rightarrow> pyval" where
  "checkpointed_value obj_info name =
     (case map_of (oi_checkpoint obj_info) name of None \<Rightarrow> Undef | Some v \<Rightarrow> v)"

text \<open>
  Modelled from the spec: \<open>ObjectInfo.set_value(name, value)\<close> (storm/info.py is
  missing), the field write: it stores the value (\<open>Undef\<close> removes the field) and
  fires "changed" with the old and the new value, which calls \<open>_object_changed\<close>
  when the store has hooked it. A write of the checkpointed value of the field fires
  nothing: in the words of the specification the hook calls \<open>mark_dirty\<close> unless
  the new value equals the checkpoint, and \<open>_object_changed\<close> of store.py makes
  no such comparison.
\<close>

definition set_value :: "store \<Rightarrow> nat \<Rightarrow> string \<Rightarrow> pyval \<Rightarrow> store" where
  "set_value st obj name v =
     (let obj_info = infos st obj;
          old_value = get_value obj_info name Undef;
          st1 = upd_info st obj (\<lambda>i. i\<lparr>oi_values :=
                  (if v = Undef then AList.delete name (oi_values i)
                   else AList.update name v (oi_values i))\<rparr>)
      in if v \<noteq> checkpointed_value obj_info name \<and> oi_changed_hook obj_info
         then object_changed st1 obj name old_value v else st1)"

subsection \<open>The connection\<close>

definition execute :: "database \<Rightarrow> store \<Rightarrow> expr \<Rightarrow> pyval list list outcome \<times> store" where
  "execute db st e =
     (case db (calls st) (Execute e) of
        Failure \<Rightarrow> (Raise BackendError, st\<lparr>calls := calls st @ [Execute e]\<rparr>)
      | Rows rows \<Rightarrow> (Return rows, st\<lparr>calls := calls st @ [Execute e]\<rparr>))"

definition connection_commit :: "database \<Rightarrow> store \<Rightarrow> unit outcome \<times> store" where
  "connection_commit db st =
     (case db (calls st) ConnCommit of
        Failure \<Rightarrow> (Raise BackendError, st\<lparr>calls := calls st @ [ConnCommit]\<rparr>)
      | Rows rows \<Rightarrow> (Return (), st\<lparr>calls := calls st @ [ConnCommit]\<rparr>))"

text \<open>
  Modelled from the spec: \<open>result.get_one()\<close>, the first row of a result or
  \<open>None\<close>.
\<close>

definition get_one :: "pyval list list \<Rightarrow> pyval list option" where
  "get_one rows = (case rows of [] \<Rightarrow> None | row # _ \<Rightarrow> Some row)"

subsection \<open>Loading values, the identity cache\<close>

definition set_values :: "store \<Rightarrow> nat \<Rightarrow> string list \<Rightarrow> pyval list \<Rightarrow> store" where
  "set_values st obj cols vals =
     fold (\<lambda>(column, v) s.
             if v = PyNone then set_value s obj column PyNone
             else set_value s obj column (from_database v))
          (zip cols vals) st"

text \<open>
  \<open>_add_to_cache\<close> reads the primary-key fields with \<open>get_value(name)\<close>,
  whose default is \<open>None\<close>; deleting a key that the cache does not hold raises
  \<open>KeyError\<close>.
\<close>

definition add_to_cache :: "store \<Rightarrow> nat \<Rightarrow> unit outcome \<times> store" where
  "add_to_cache st obj =
     (let obj_info = infos st obj;
          cls = oi_cls obj_info;
          old_primary_values = oi_primary_values obj_info;
          new_primary_values = map (\<lambda>prop. get_value obj_info prop PyNone) (primary_key cls)
      in if Some new_primary_values = old_primary_values then (Return (), st)
         else (case old_primary_values of
                 None \<Rightarrow>
                   (Return (), upd_info (st\<lparr>cache := AList.update (cls, new_primary_values) obj (cache st)\<rparr>)
                                 obj (\<lambda>i. i\<lparr>oi_primary_values := Some new_primary_values\<rparr>))
               | Some old \<Rightarrow>
                   (if map_of (cache st) (cls, old) = None then (Raise KeyError, st)
                    else (Return (), upd_info (st\<lparr>cache := AList.update (cls, new_primary_values) obj
                                                   (AList.delete (cls, old) (cache st))\<rparr>)
                                 obj (\<lambda>i. i\<lparr>oi_primary_values := Some new_primary_values\<rparr>)))))"

definition remove_from_cache :: "store \<Rightarrow> nat \<Rightarrow> unit outcome \<times> store" where
  "remove_from_cache st obj =
     (let obj_info = infos st obj in
      case oi_primary_values obj_info of
        None \<Rightarrow> (Return (), st)
      | Some primary_values \<Rightarrow>
          (if map_of (cache st) (oi_cls obj_info, primary_values) = None then (Raise KeyError, st)
           else (Return (), upd_info (st\<lparr>cache := AList.delete (oi_cls obj_info, primary_values) (cache st)\<rparr>)
                              obj (\<lambda>i. i\<lparr>oi_primary_values := None\<rparr>))))"

definition fill_missing_values :: "database \<Rightarrow> store \<Rightarrow> nat \<Rightarrow> unit outcome \<times> store" where
  "fill_missing_values db st obj =
     (let obj_info = infos st obj;
          cls = oi_cls obj_info;
          missing_columns = filter (\<lambda>column. \<not> has_value obj_info column) (columns cls)
      in if missing_columns \<noteq> [] then
           (let primary_values = map (\<lambda>column. get_value obj_info column Undef) (primary_key cls);
                where_clause = (if Undef \<in> set primary_values
                                then InsertIdentity (primary_key cls) primary_values
                                else CompareColumns (primary_key cls) primary_values)
            in case execute db st (Select missing_columns where_clause None None) of
                 (Raise e, st1) \<Rightarrow> (Raise e, st1)
               | (Return rows, st1) \<Rightarrow>
                   (case get_one rows of
                      None \<Rightarrow> (Raise TypeError, st1)
                    | Some row \<Rightarrow> (Return (), set_values st1 obj missing_columns row)))
         else (Return (), st))"

subsection \<open>Flushing one object\<close>

text \<open>
  \<open>_flush_one\<close> is \<open>flush_one\<close>; its three branches are
  \<open>flush_pending_remove\<close> (lines 231 to 239), \<open>flush_pending_add\<close> (lines 241
  to 261) and \<open>flush_changed\<close> (lines 263 to 281). No user hook is registered on
  "flushed": emitting it only records the object.
\<close>

definition flush_pending_remove :: "database \<Rightarrow> store \<Rightarrow> nat \<Rightarrow> unit outcome \<times> store" where
  "flush_pending_remove db st obj =
     (let obj_info = infos st obj; cls = oi_cls obj_info in
      case oi_primary_values obj_info of
        None \<Rightarrow> (Raise KeyError, st)
      | Some primary_values \<Rightarrow>
          (case execute db st (Delete (CompareColumns (primary_key cls) primary_values) (table cls)) of
             (Raise e, st1) \<Rightarrow> (Raise e, st1)
           | (Return _, st1) \<Rightarrow>
               remove_from_cache (set_ghost (disable_change_notification st1 obj) obj) obj))"

definition flush_pending_add :: "database \<Rightarrow> store \<Rightarrow> nat \<Rightarrow> unit outcome \<times> store" where
  "flush_pending_add db st obj =
     (let obj_info = infos st obj; cls = oi_cls obj_info;
          cols = filter (\<lambda>column. get_value obj_info column Undef \<noteq> Undef) (columns cls);
          vals = map (\<lambda>column. to_database (get_value obj_info column Undef)) cols
      in case execute db st (Insert cols vals (table cls)) of
           (Raise e, st1) \<Rightarrow> (Raise e, st1)
         | (Return _, st1) \<Rightarrow>
             (case fill_missing_values db st1 obj of
                (Raise e, st2) \<Rightarrow> (Raise e, st2)
              | (Return _, st2) \<Rightarrow>
                  (case add_to_cache (set_alive (enable_change_notification st2 obj) obj) obj of
                     (Raise e, st3) \<Rightarrow> (Raise e, st3)
                   | (Return _, st3) \<Rightarrow> (Return (), upd_info st3 obj checkpoint))))"

definition flush_changed :: "database \<Rightarrow> store \<Rightarrow> nat \<Rightarrow> unit outcome \<times> store" where
  "flush_changed db st obj =
     (let obj_info = infos st obj; cls = oi_cls obj_info in
      if check_changed obj_info then
        (let sets = map (\<lambda>column. (column, to_database (get_changes obj_info column Undef)))
                      (filter (\<lambda>column. get_changes obj_info column Undef \<noteq> Undef) (columns cls))
         in if sets \<noteq> [] then
              (case oi_primary_values obj_info of
                 None \<Rightarrow> (Raise KeyError, st)
               | Some primary_values \<Rightarrow>
                   (case execute db st (Update sets (CompareColumns (primary_key cls) primary_values) (table cls)) of
                      (Raise e, st1) \<Rightarrow> (Raise e, st1)
                    | (Return _, st1) \<Rightarrow>
                        (case add_to_cache st1 obj of
                           (Raise e, st2) \<Rightarrow> (Raise e, st2)
                         | (Return _, st2) \<Rightarrow> (Return (), upd_info st2 obj checkpoint))))
            else (Return (), upd_info st obj checkpoint))
      else (Return (), st))"

definition emit_flushed :: "store \<Rightarrow> nat \<Rightarrow> store" where
  "emit_flushed st obj = st\<lparr>flushed := flushed st @ [obj]\<rparr>"

definition flush_one :: "database \<Rightarrow> store \<Rightarrow> nat \<Rightarrow> unit outcome \<times> store" where
  "flush_one db st obj =
     (if obj \<notin> set (dirty st) then (Return (), st)
      else
        (let st1 = set_clean st obj;
             pending = oi_pending (infos st1 obj);
             st2 = upd_info st1 obj (\<lambda>i. i\<lparr>oi_pending := None\<rparr>)
         in case (case pending of
                    Some PENDING_REMOVE \<Rightarrow> flush_pending_remove db st2 obj
                  | Some PENDING_ADD \<Rightarrow> flush_pending_add db st2 obj
                  | None \<Rightarrow> flush_changed db st2 obj) of
              (Raise e, st3) \<Rightarrow> (Raise e, st3)
            | (Return _, st3) \<Rightarrow> (Return (), emit_flushed st3 obj)))"

subsection \<open>Flush order\<close>

definition add_flush_order :: "store \<Rightarrow> nat \<Rightarrow> nat \<Rightarrow> store" where
  "add_flush_order st before after =
     (let pair = (before, after) in
      case map_of (order st) pair of
        Some n \<Rightarrow> st\<lparr>order := AList.update pair (n + 1) (order st)\<rparr>
      | None \<Rightarrow> st\<lparr>order := AList.update pair 1 (order st)\<rparr>)"

definition remove_flush_order :: "store \<Rightarrow> nat \<Rightarrow> nat \<Rightarrow> store" where
  "remove_flush_order st before after =
     (let pair = (before, after) in
      case map_of (order st) pair of
        Some n \<Rightarrow> st\<lparr>order := AList.update pair (n - 1) (order st)\<rparr>
      | None \<Rightarrow> st)"

text \<open>
  \<open>predecessors ord obj_id\<close> is \<open>predecessors.get(obj_id, ())\<close> for the
  dictionary that \<open>flush\<close> builds from the items of \<open>_order\<close>. The while
  loop of \<open>flush\<close> is \<open>flush_loop\<close>: the first dirty object none of whose
  predecessors is dirty is flushed; when the scan finds none, the loop raises.
\<close>

definition predecessors :: "((nat \<times> nat) \<times> int) list \<Rightarrow> nat \<Rightarrow> nat list" where
  "predecessors ord obj_id =
     map (\<lambda>((before, after), n). before)
       (filter (\<lambda>((before, after), n). n > 0 \<and> after = obj_id) ord)"

function flush_loop :: "(nat \<Rightarrow> nat list) \<Rightarrow> database \<Rightarrow> store \<Rightarrow> unit outcome \<times> store" where
  "flush_loop preds db st =
     (if dirty st = [] then (Return (), st)
      else (case find (\<lambda>obj_id. \<forall>before \<in> set (preds obj_id). before \<notin> set (dirty st)) (dirty st) of
              None \<Rightarrow> (Raise (StoreError OrderingLoop), st)
            | Some obj \<Rightarrow>
                (case flush_one db st obj of
                   (Raise e, st1) \<Rightarrow> (Raise e, st1)
                 | (Return _, st1) \<Rightarrow> flush_loop preds db st1)))"
  by pat_completeness auto

definition flush :: "database \<Rightarrow> store \<Rightarrow> unit outcome \<times> store" where
  "flush db st =
     (case flush_loop (predecessors (order st)) db st of
        (Raise e, st1) \<Rightarrow> (Raise e, st1)
      | (Return _, st1) \<Rightarrow> (Return (), st1\<lparr>order := []\<rparr>))"

subsection \<open>add, remove, reload, get, commit\<close>

definition add :: "store \<Rightarrow> nat \<Rightarrow> unit outcome \<times> store" where
  "add st obj =
     (let obj_info = infos st obj; store = oi_store obj_info in
      if store \<noteq> None \<and> store \<noteq> Some (self_id st)
      then (Raise (StoreError PartOfAnotherStore), st)
      else (case oi_pending obj_info of
              Some PENDING_ADD \<Rightarrow> (Raise (StoreError AlreadyScheduledToBeAdded), st)
            | Some PENDING_REMOVE \<Rightarrow>
                (Return (), upd_info st obj (\<lambda>i. i\<lparr>oi_pending := None\<rparr>))
            | None \<Rightarrow>
                (if store = None then
                   (Return (), set_dirty
                      (upd_info st obj
                         (\<lambda>i. (save i)\<lparr>oi_store := Some (self_id st), oi_pending := Some PENDING_ADD\<rparr>))
                      obj)
                 else if \<not> is_ghost st obj then (Raise (StoreError AlreadyInTheStore), st)
                 else (Return (), set_dirty
                         (upd_info (set_alive st obj) obj (\<lambda>i. i\<lparr>oi_pending := Some PENDING_ADD\<rparr>))
                         obj))))"

definition remove :: "store \<Rightarrow> nat \<Rightarrow> unit outcome \<times> store" where
  "remove st obj =
     (let obj_info = infos st obj in
      if oi_store obj_info \<noteq> Some (self_id st) then (Raise (StoreError NotInThisStore), st)
      else (case oi_pending obj_info of
              Some PENDING_REMOVE \<Rightarrow> (Raise (StoreError AlreadyScheduledToBeRemoved), st)
            | Some PENDING_ADD \<Rightarrow>
                (Return (), set_clean (set_ghost (upd_info st obj (\<lambda>i. i\<lparr>oi_pending := None\<rparr>)) obj) obj)
            | None \<Rightarrow>
                (Return (), set_dirty (upd_info st obj (\<lambda>i. i\<lparr>oi_pending := Some PENDING_REMOVE\<rparr>)) obj)))"

definition reload :: "database \<Rightarrow> store \<Rightarrow> nat \<Rightarrow> unit outcome \<times> store" where
  "reload db st obj =
     (let obj_info = infos st obj; cls = oi_cls obj_info in
      if oi_store obj_info \<noteq> Some (self_id st) then (Raise (StoreError NotInThisStore), st)
      else (case oi_primary_values obj_info of
              None \<Rightarrow> (Raise (StoreError NeverFlushed), st)
            | Some primary_values \<Rightarrow>
                (case execute db st (Select (columns cls)
                        (CompareColumns (primary_key cls) primary_values) (Some (table cls)) (Some 1)) of
                   (Raise e, st1) \<Rightarrow> (Raise e, st1)
                 | (Return rows, st1) \<Rightarrow>
                     (case get_one rows of
                        None \<Rightarrow> (Raise TypeError, st1)
                      | Some row \<Rightarrow>
                          (Return (), set_clean
                             (upd_info (set_values st1 obj (columns cls) row) obj checkpoint) obj)))))"

text \<open>
  Modelled from the spec: \<open>cls_info.primary_key_pos\<close> (storm/info.py is missing),
  the positions of the primary-key columns among the columns.
\<close>

fun index_of :: "'a \<Rightarrow> 'a list \<Rightarrow> nat" where
  "index_of x [] = 0"
| "index_of x (y # ys) = (if x = y then 0 else Suc (index_of x ys))"

definition primary_key_pos :: "cls_info \<Rightarrow> nat list" where
  "primary_key_pos cls = map (\<lambda>name. index_of name (columns cls)) (primary_key cls)"

text \<open>
  \<open>_load_object\<close> as \<open>get\<close> calls it (without an object). The hook
  \<open>__load__\<close> and \<open>save_attributes\<close> belong to the application object and
  are left out.
\<close>

definition load_object :: "store \<Rightarrow> cls_info \<Rightarrow> pyval list \<Rightarrow> nat outcome \<times> store" where
  "load_object st cls vals =
     (if \<exists>i \<in> set (primary_key_pos cls). length vals \<le> i then (Raise IndexError, st)
      else
        (let primary_values = map (\<lambda>i. vals ! i) (primary_key_pos cls) in
         case map_of (cache st) (cls, primary_values) of
           Some obj \<Rightarrow> (Return obj, st)
         | None \<Rightarrow>
             (let obj = next_obj st;
                  st1 = st\<lparr>next_obj := Suc obj,
                           infos := (infos st)(obj := (new_obj_info cls)\<lparr>oi_store := Some (self_id st)\<rparr>)\<rparr>;
                  st2 = set_values st1 obj (columns cls) vals;
                  st3 = upd_info st2 obj save
              in case add_to_cache st3 obj of
                   (Raise e, st4) \<Rightarrow> (Raise e, st4)
                 | (Return _, st4) \<Rightarrow> (Return obj, enable_change_notification st4 obj))))"

definition key_tuple :: "pyval \<Rightarrow> pyval list" where
  "key_tuple key = (case key of PyTuple ks \<Rightarrow> ks | _ \<Rightarrow> [key])"

definition get :: "database \<Rightarrow> store \<Rightarrow> cls_info \<Rightarrow> pyval \<Rightarrow> nat option outcome \<times> store" where
  "get db st cls key0 =
     (case flush db st of
        (Raise e, st1) \<Rightarrow> (Raise e, st1)
      | (Return _, st1) \<Rightarrow>
          (let key = key_tuple key0 in
           if length key \<noteq> length (primary_key cls) then (Raise AssertionError, st1)
           else (case map_of (cache st1) (cls, key) of
                   Some cached \<Rightarrow> (Return (Some cached), st1)
                 | None \<Rightarrow>
                     (case execute db st1 (Select (columns cls)
                             (CompareColumns (primary_key cls) key) (Some (table cls)) (Some 1)) of
                        (Raise e, st2) \<Rightarrow> (Raise e, st2)
                      | (Return rows, st2) \<Rightarrow>
                          (case get_one rows of
                             None \<Rightarrow> (Return None, st2)
                           | Some vals \<Rightarrow>
                               (case load_object st2 cls vals of
                                  (Raise e, st3) \<Rightarrow> (Raise e, st3)
                                | (Return obj, st3) \<Rightarrow> (Return (Some obj), st3)))))))"

fun del_store :: "nat list \<Rightarrow> store \<Rightarrow> unit outcome \<times> store" where
  "del_store [] st = (Return (), st)"
| "del_store (obj # objs) st =
     (if oi_store (infos st obj) = None then (Raise KeyError, st)
      else del_store objs (upd_info st obj (\<lambda>i. i\<lparr>oi_store := None\<rparr>)))"

definition commit :: "database \<Rightarrow> store \<Rightarrow> unit outcome \<times> store" where
  "commit db st =
     (case flush db st of
        (Raise e, st1) \<Rightarrow> (Raise e, st1)
      | (Return _, st1) \<Rightarrow>
          (case connection_commit db st1 of
             (Raise e, st2) \<Rightarrow> (Raise e, st2)
           | (Return _, st2) \<Rightarrow>
               (case del_store (ghosts st2) st2 of
                  (Raise e, st3) \<Rightarrow> (Raise e, st3)
                | (Return _, st3) \<Rightarrow>
                    (Return (), (fold (\<lambda>obj s. upd_info s obj save) (map snd (cache st3)) st3)
                                  \<lparr>ghosts := []\<rparr>))))"

subsection \<open>Notions used in the proofs\<close>

text \<open>
  \<open>touches obj st st'\<close> bounds what a step of flushing \<open>obj\<close> changes:
  no other object, not the class, owner or pending flag of \<open>obj\<close>, the dirty list at
  most by appending \<open>obj\<close>, and cache entries only for \<open>obj\<close>.
  \<open>flush_start\<close> is the state of \<open>_flush_one\<close> after its first two
  statements, and \<open>flush_measure\<close> decreases with every object flushed.
\<close>

definition touches :: "nat \<Rightarrow> store \<Rightarrow> store \<Rightarrow> bool" where
  "touches obj st st' \<longleftrightarrow>
     self_id st' = self_id st \<and> order st' = order st \<and> next_obj st' = next_obj st \<and>
     (\<forall>x. x \<noteq> obj \<longrightarrow> infos st' x = infos st x) \<and>
     oi_cls (infos st' obj) = oi_cls (infos st obj) \<and>
     oi_store (infos st' obj) = oi_store (infos st obj) \<and>
     oi_pending (infos st' obj) = oi_pending (infos st obj) \<and>
     (dirty st' = dirty st \<or> (obj \<notin> set (dirty st) \<and> dirty st' = dirty st @ [obj])) \<and>
     (\<forall>x. x \<noteq> obj \<longrightarrow> (x \<in> set (ghosts st') \<longleftrightarrow> x \<in> set (ghosts st))) \<and>
     flushed st' = flushed st \<and>
     (\<forall>key x. map_of (cache st') key = Some x \<longrightarrow> x = obj \<or> map_of (cache st) key = Some x)"

definition flush_start :: "store \<Rightarrow> nat \<Rightarrow> store" where
  "flush_start st obj = upd_info (set_clean st obj) obj (\<lambda>i. i\<lparr>oi_pending := None\<rparr>)"

definition flush_measure :: "store \<Rightarrow> nat" where
  "flush_measure st = length (dirty st)
     + length (filter (\<lambda>x. oi_pending (infos st x) = Some PENDING_ADD) (dirty st))"

text \<open>
  A series of calls of \<open>add_flush_order\<close> and \<open>remove_flush_order\<close> for one
  pair, a series of field writes on one object, the exceptions that flushing one object
  can raise, and the test \<open>type(key) == tuple\<close> of \<open>get\<close>.
\<close>

datatype order_call = AddOrder | RemoveOrder

fun order_calls :: "store \<Rightarrow> nat \<Rightarrow> nat \<Rightarrow> order_call list \<Rightarrow> store" where
  "order_calls st before after [] = st"
| "order_calls st before after (AddOrder # cs) = order_calls (add_flush_order st before after) before after cs"
| "order_calls st before after (RemoveOrder # cs) = order_calls (remove_flush_order st before after) before after cs"

definition field_writes :: "store \<Rightarrow> nat \<Rightarrow> (string \<times> pyval) list \<Rightarrow> store" where
  "field_writes st obj writes = fold (\<lambda>(name, v) s. set_value s obj name v) writes st"

definition flush_one_exn :: "exn \<Rightarrow> bool" where
  "flush_one_exn e = (e = KeyError \<or> e = TypeError \<or> e = BackendError)"

definition is_tuple :: "pyval \<Rightarrow> bool" where
  "is_tuple key = (case key of PyTuple ks \<Rightarrow> True | _ \<Rightarrow> False)"

text \<open>
  \<open>constraint_pairs st\<close> are the pairs of the order table with a count above
  zero whose two objects are dirty; \<open>constraints_among\<close> is the same relation for
  the predecessor map of a flush. \<open>flushed_by st st'\<close> are the objects for which
  "flushed" was emitted between the two states, in order.
\<close>

definition constraint_pairs :: "store \<Rightarrow> (nat \<times> nat) list" where
  "constraint_pairs st =
     map fst (filter (\<lambda>((before, after), n). n > 0 \<and> before \<in> set (dirty st) \<and> after \<in> set (dirty st))
                (order st))"

definition flushed_by :: "store \<Rightarrow> store \<Rightarrow> nat list" where
  "flushed_by st st' = drop (length (flushed st)) (flushed st')"

definition constraints_among :: "(nat \<Rightarrow> nat list) \<Rightarrow> nat set \<Rightarrow> (nat \<times> nat) set" where
  "constraints_among preds D = {(b, a). b \<in> set (preds a) \<and> b \<in> D \<and> a \<in> D}"


text \<open>
  Two conditions on the identity cache: an object is cached at most under its class and
  its recorded primary values, and an object is the value of no cache entry.
\<close>

definition cached_only_under_key :: "store \<Rightarrow> nat \<Rightarrow> bool" where
  "cached_only_under_key st obj =
     (\<forall>key. map_of (cache st) key = Some obj \<longrightarrow>
        key = (oi_cls (infos st obj), the (oi_primary_values (infos st obj)))
        \<and> oi_primary_values (infos st obj) \<noteq> None)"

definition not_cached :: "store \<Rightarrow> nat \<Rightarrow> bool" where
  "not_cached st obj = (\<forall>key. map_of (cache st) key \<noteq> Some obj)"




subsection \<open>Example states\<close>

text \<open>
  A class with a generated key and a title, a database that answers every call with the
  same rows, and small stores on which the theorems are evaluated.
\<close>

definition Foo :: cls_info where
  "Foo = \<lparr>table = ''foo'', columns = [''id'', ''title''], primary_key = [''id'']\<rparr>"

definition db_rows :: "pyval list list \<Rightarrow> database" where
  "db_rows rows history call = Rows rows"

definition store0 :: store where
  "store0 = \<lparr>self_id = 1, infos = (\<lambda>obj. new_obj_info Foo), next_obj = 100, cache = [],
     ghosts = [], dirty = [], order = [], calls = [], flushed = []\<rparr>"

definition usage_store :: store where
  "usage_store = store0\<lparr>infos := (infos store0)
     (1 := (new_obj_info Foo)\<lparr>oi_store := Some 1, oi_pending := Some PENDING_ADD\<rparr>,
      2 := (new_obj_info Foo)\<lparr>oi_store := Some 1, oi_pending := Some PENDING_REMOVE,
                                oi_primary_values := Some [PyInt 5]\<rparr>,
      3 := (new_obj_info Foo)\<lparr>oi_store := Some 7\<rparr>),
     dirty := [1, 2], cache := [((Foo, [PyInt 5]), 2)]\<rparr>"

definition alive_store :: store where
  "alive_store = store0\<lparr>infos := (infos store0)
     (2 := (new_obj_info Foo)\<lparr>oi_store := Some 1, oi_primary_values := Some [PyInt 5],
            oi_values := [(''id'', PyInt 5)], oi_checkpoint := [(''id'', PyInt 5)],
            oi_changed_hook := True\<rparr>),
     cache := [((Foo, [PyInt 5]), 2)]\<rparr>"

text \<open>
  \<open>fresh_store\<close> holds a new object 2 with both fields set;
  \<open>flushed_store\<close> is the store after \<open>add\<close> and \<open>flush\<close> of it.
\<close>

definition fresh_store :: store where
  "fresh_store = store0\<lparr>infos := (infos store0)
     (2 := (new_obj_info Foo)\<lparr>oi_values := [(''id'', PyInt 5), (''title'', PyStr ''a'')]\<rparr>)\<rparr>"

definition flushed_store :: store where
  "flushed_store = snd (flush (db_rows []) (snd (add fresh_store 2)))"

text \<open>
  \<open>ordered_store\<close>: two objects to insert, 2 before 1 in the dirty set, with the
  constraint that 1 is flushed before 2. \<open>cyclic_store\<close>: objects 1 and 2 constrain
  each other, object 3 is to be inserted and is bound by no constraint.
\<close>

definition ordered_store :: store where
  "ordered_store = store0\<lparr>infos := (infos store0)
     (1 := (new_obj_info Foo)\<lparr>oi_store := Some 1, oi_pending := Some PENDING_ADD,
            oi_values := [(''id'', PyInt 1), (''title'', PyStr ''a'')]\<rparr>,
      2 := (new_obj_info Foo)\<lparr>oi_store := Some 1, oi_pending := Some PENDING_ADD,
            oi_values := [(''id'', PyInt 2), (''title'', PyStr ''b'')]\<rparr>),
     dirty := [2, 1], order := [((1, 2), 1)]\<rparr>"

definition cyclic_store :: store where
  "cyclic_store = store0\<lparr>infos := (infos store0)
     (1 := (new_obj_info Foo)\<lparr>oi_store := Some 1\<rparr>,
      2 := (new_obj_info Foo)\<lparr>oi_store := Some 1\<rparr>,
      3 := (new_obj_info Foo)\<lparr>oi_store := Some 1, oi_pending := Some PENDING_ADD,
            oi_values := [(''id'', PyInt 7), (''title'', PyStr ''c'')]\<rparr>),
     dirty := [3, 1, 2], order := [((1, 2), 1), ((2, 1), 1)]\<rparr>"

text \<open>
  \<open>removed_store\<close> is \<open>flushed_store\<close> after \<open>remove\<close> of its object,
  \<open>ghost_store\<close> the store after the flush of that removal.
\<close>

definition removed_store :: store where
  "removed_store = snd (remove flushed_store 2)"

definition ghost_store :: store where
  "ghost_store = snd (flush (db_rows []) removed_store)"



text \<open>
  \<open>repl_store\<close> holds object 1, flushed under the key 5 and scheduled to be
  removed, and a new object 2 with the same key; \<open>repl_flushed\<close> is the store
  after \<open>add\<close> of object 2 and a flush, which deletes the row of object 1 and
  then inserts the row of object 2. In \<open>late_store\<close> the order table asks for
  object 2 to be flushed before object 1.
\<close>

definition repl_store :: store where
  "repl_store = store0\<lparr>infos := (infos store0)
     (1 := (new_obj_info Foo)\<lparr>oi_store := Some 1, oi_pending := Some PENDING_REMOVE,
            oi_primary_values := Some [PyInt 5],
            oi_values := [(''id'', PyInt 5), (''title'', PyStr ''a'')],
            oi_checkpoint := [(''id'', PyInt 5), (''title'', PyStr ''a'')],
            oi_changed_hook := True\<rparr>,
      2 := (new_obj_info Foo)\<lparr>oi_values := [(''id'', PyInt 5), (''title'', PyStr ''b'')]\<rparr>),
     cache := [((Foo, [PyInt 5]), 1)], dirty := [1]\<rparr>"


definition late_store :: store where
  "late_store = add_flush_order repl_store 2 1"

section \<open>Parameter marks: the statement is the scan of the specification\<close>

lemma split_chr_ne: "split_chr sep s \<noteq> []"
  by (induction s) auto

lemma hd_split_prefix: "prefix (hd (split_chr sep s)) s"
  by (induction s) auto

lemma split_chr_append:
  "sep \<notin> set f \<Longrightarrow>
   split_chr sep (f @ s) = (f @ hd (split_chr sep s)) # tl (split_chr sep s)"
  by (induction f) (auto simp: split_chr_ne)

lemma replace_str_prefix:
  "f \<noteq> [] \<Longrightarrow> replace_str f t (f @ r) = t @ replace_str f t r"
  by (cases f) auto

lemma join_str_Cons_hd:
  "join_str sep ((c # t) # ts) = c # join_str sep (t # ts)"
  by (cases ts) auto

lemma join_str_append_hd:
  "join_str sep ((p @ t) # ts) = p @ join_str sep (t # ts)"
  by (cases ts) auto

lemma replace_even_Cons:
  "replace_even g n (t # ts) = (if even n then g t else t) # replace_even g (Suc n) ts"
  by (simp add: replace_even_def)

lemma replace_even_ne: "ts \<noteq> [] \<Longrightarrow> replace_even g n ts \<noteq> []"
  by (cases ts) (simp_all add: replace_even_def)

lemma join_str_Nil_hd:
  "ts \<noteq> [] \<Longrightarrow> join_str sep ([] # ts) = sep @ join_str sep ts"
  by (cases ts) auto

lemma tokens_refine:
  assumes f: "f \<noteq> []" and q: "quote_mark \<notin> set f"
  shows "join_str [quote_mark] (replace_even (replace_str f t) n (split_chr quote_mark s))
         = spec_scan (odd n) f t s"
proof (induction s arbitrary: n rule: length_induct)
  case (1 s)
  show ?case
  proof (cases s)
    case Nil
    then show ?thesis using f by (simp add: replace_even_def)
  next
    case (Cons c cs)
    obtain t0 ts where sp: "split_chr quote_mark cs = t0 # ts"
      using split_chr_ne[of quote_mark cs] by (cases "split_chr quote_mark cs") auto
    have IHcs: "\<And>m. join_str [quote_mark] (replace_even (replace_str f t) m (split_chr quote_mark cs))
         = spec_scan (odd m) f t cs"
      using 1 Cons by simp
    show ?thesis
    proof (cases "c = quote_mark")
      case True
      have "join_str [quote_mark] (replace_even (replace_str f t) n (split_chr quote_mark s))
          = quote_mark # join_str [quote_mark] (replace_even (replace_str f t) (Suc n) (split_chr quote_mark cs))"
        using True Cons f sp
        by (simp add: replace_even_Cons join_str_Nil_hd)
      then show ?thesis using IHcs[of "Suc n"] True Cons by simp
    next
      case False
      note cq = False
      show ?thesis
      proof (cases "odd n")
        case True
        have "join_str [quote_mark] (replace_even (replace_str f t) n (split_chr quote_mark s))
          = c # join_str [quote_mark] (replace_even (replace_str f t) n (split_chr quote_mark cs))"
          using True Cons cq sp by (simp add: replace_even_Cons join_str_Cons_hd)
        then show ?thesis using IHcs[of n] True Cons cq by simp
      next
        case False
        note ev = False
        show ?thesis
        proof (cases "prefix f s")
          case True
          then obtain r where r: "s = f @ r" by (auto simp: prefix_def)
          have len: "length r < length s" using r f by simp
          have IHr: "join_str [quote_mark] (replace_even (replace_str f t) n (split_chr quote_mark r))
             = spec_scan (odd n) f t r"
            using 1 len by blast
          obtain r0 rs where spr: "split_chr quote_mark r = r0 # rs"
            using split_chr_ne[of quote_mark r] by (cases "split_chr quote_mark r") auto
          have "join_str [quote_mark] (replace_even (replace_str f t) n (split_chr quote_mark s))
             = t @ join_str [quote_mark] (replace_even (replace_str f t) n (split_chr quote_mark r))"
            using ev r spr f q
            by (simp add: split_chr_append replace_even_Cons replace_str_prefix join_str_append_hd)
          moreover have "drop (length f) (c # cs) = r"
            using r Cons by (metis append_eq_conv_conj)
          then have "spec_scan (odd n) f t s = t @ spec_scan (odd n) f t r"
            using Cons cq ev True f by simp
          ultimately show ?thesis using IHr by simp
        next
          case False
          have "\<not> prefix f (c # t0)"
          proof
            assume "prefix f (c # t0)"
            moreover have "prefix (c # t0) s"
              using hd_split_prefix[of quote_mark cs] sp Cons by simp
            ultimately show False using False by auto
          qed
          then have "replace_str f t (c # t0) = c # replace_str f t t0"
            using f by simp
          then have "join_str [quote_mark] (replace_even (replace_str f t) n (split_chr quote_mark s))
             = c # join_str [quote_mark] (replace_even (replace_str f t) n (split_chr quote_mark cs))"
            using ev Cons cq sp by (simp add: replace_even_Cons join_str_Cons_hd)
          then show ?thesis using IHcs[of n] ev False Cons cq by simp
        qed
      qed
    qed
  qed
qed



lemma spec_scan_absent: "\<not> str_contains f s \<Longrightarrow> spec_scan b f t s = s"
proof (induction s arbitrary: b)
  case Nil
  then show ?case by simp
next
  case (Cons c cs)
  then have np: "\<not> prefix f (c # cs)" and nc: "\<not> str_contains f cs"
    by simp_all
  have "spec_scan b f t (c # cs) = c # spec_scan (if c = quote_mark then \<not> b else b) f t cs"
    using np by (simp del: prefix_Cons)
  then show ?case using Cons.IH[OF nc] by simp
qed

lemma spec_scan_same: "spec_scan b f f s = s"
proof (induction s arbitrary: b rule: length_induct)
  case (1 s)
  show ?case
  proof (cases s)
    case Nil
    then show ?thesis by simp
  next
    case (Cons c cs)
    have IHcs: "\<And>b'. spec_scan b' f f cs = cs" using 1 Cons by simp
    show ?thesis
    proof (cases "c \<noteq> quote_mark \<and> \<not> b \<and> f \<noteq> [] \<and> prefix f (c # cs)")
      case True
      then obtain r where r: "c # cs = f @ r" by (auto simp: prefix_def)
      then have d: "drop (length f) (c # cs) = r" by (metis append_eq_conv_conj)
      have "length r < length s" using r True Cons
        by (metis append_eq_conv_conj diff_less length_drop length_greater_0_conv list.distinct(1))
      then have "spec_scan b f f r = r" using 1 by blast
      moreover have "spec_scan b f f (c # cs) = f @ spec_scan b f f (drop (length f) (c # cs))"
        using True by (simp del: prefix_Cons)
      ultimately show ?thesis using d r Cons by simp
    next
      case False
      then have "spec_scan b f f (c # cs) = c # spec_scan (if c = quote_mark then \<not> b else b) f f cs"
        by (cases "c = quote_mark"; cases b; cases "f = []"; simp del: prefix_Cons)
      then show ?thesis using IHcs Cons by simp
    qed
  qed
qed

text \<open>
  C8. For a source mark that is not empty and holds no single quote,
  \<open>convert_param_marks\<close> is the scan of the specification: every occurrence of the
  source mark outside single-quoted literals becomes the target mark and every character
  inside a literal is copied. When the source mark equals the target mark, or does not
  occur in the statement, the statement is returned as it is (and that agrees with the
  scan).
\<close>

theorem convert_param_marks_refines_spec:
  assumes "from_param_mark \<noteq> []" and "quote_mark \<notin> set from_param_mark"
  shows "convert_param_marks statement from_param_mark to_param_mark
           = spec_convert_param_marks statement from_param_mark to_param_mark
         \<and> (from_param_mark = to_param_mark \<or> \<not> str_contains from_param_mark statement
              \<longrightarrow> convert_param_marks statement from_param_mark to_param_mark = statement)"
proof (cases "from_param_mark = to_param_mark \<or> \<not> str_contains from_param_mark statement")
  case True
  then have c: "convert_param_marks statement from_param_mark to_param_mark = statement"
    by (simp add: convert_param_marks_def)
  have "spec_scan False from_param_mark to_param_mark statement = statement"
    using True spec_scan_same spec_scan_absent by auto
  then show ?thesis using c by (simp add: spec_convert_param_marks_def)
next
  case False
  then have "convert_param_marks statement from_param_mark to_param_mark
      = join_str [quote_mark] (replace_even (replace_str from_param_mark to_param_mark) 0
          (split_chr quote_mark statement))"
    by (simp add: convert_param_marks_def)
  also have "\<dots> = spec_scan (odd (0::nat)) from_param_mark to_param_mark statement"
    using tokens_refine[OF assms] by blast
  finally show ?thesis using False by (simp add: spec_convert_param_marks_def)
qed

theorem convert_param_marks_refines_spec_witness:
  "''?'' \<noteq> [] \<and> quote_mark \<notin> set ''?''
   \<and> convert_param_marks ''x=? y='?' z=?'' ''?'' ''%s''
       = spec_convert_param_marks ''x=? y='?' z=?'' ''?'' ''%s''
   \<and> convert_param_marks ''x=? y='?' z=?'' ''?'' ''%s'' = ''x=%s y='?' z=%s''"
proof -
  have h1: "''?'' \<noteq> ([]::string)" by simp
  have h2: "quote_mark \<notin> set ''?''" by (simp add: quote_mark_def)
  have v: "convert_param_marks ''x=? y='?' z=?'' ''?'' ''%s'' = ''x=%s y='?' z=%s''"
    by (simp add: convert_param_marks_def quote_mark_def replace_even_def enumerate_eq_zip)
  have "convert_param_marks ''x=? y='?' z=?'' ''?'' ''%s''
       = spec_convert_param_marks ''x=? y='?' z=?'' ''?'' ''%s''"
    using convert_param_marks_refines_spec[where from_param_mark="''?''"
            and statement="''x=? y='?' z=?''" and to_param_mark="''%s''", OF h1 h2]
    by blast
  then show ?thesis using h1 h2 v by blast
qed

section \<open>What flushing one object touches; the flush loop terminates\<close>

lemma touches_refl: "touches obj st st"
  by (simp add: touches_def)

lemma touches_trans: "touches obj st st1 \<Longrightarrow> touches obj st1 st2 \<Longrightarrow> touches obj st st2"
  unfolding touches_def
  apply (intro conjI)
            apply simp
           apply simp
          apply simp
         apply simp
        apply simp
       apply simp
      apply simp
     apply auto[1]
    apply simp
   apply simp
  apply blast
  done

lemma bind_cases:
  assumes "(case m of (Raise e, s1) \<Rightarrow> (Raise e, s1) | (Return x, s1) \<Rightarrow> f x s1) = (r, st')"
  obtains (raise) e where "m = (Raise e, st')" "r = Raise e"
        | (return) x s1 where "m = (Return x, s1)" "f x s1 = (r, st')"
  using assms by (auto split: prod.splits outcome.splits)

lemma touches_upd_info:
  "oi_cls (f (infos st obj)) = oi_cls (infos st obj) \<Longrightarrow>
   oi_store (f (infos st obj)) = oi_store (infos st obj) \<Longrightarrow>
   oi_pending (f (infos st obj)) = oi_pending (infos st obj) \<Longrightarrow>
   touches obj st (upd_info st obj f)"
  by (simp add: touches_def upd_info_def)

lemma touches_execute: "execute db st e = (r, st') \<Longrightarrow> touches obj st st'"
  by (auto simp: execute_def touches_def split: reply.splits)

lemma touches_set_value: "touches obj st (set_value st obj name v)"
  by (simp add: set_value_def Let_def object_changed_def set_dirty_def upd_info_def touches_def)

lemma touches_set_values: "touches obj st (set_values st obj cols vals)"
proof -
  have "touches obj st (fold (\<lambda>(column, v) s.
             if v = PyNone then set_value s obj column PyNone
             else set_value s obj column (from_database v)) zs st)" for zs
  proof (induction zs arbitrary: st)
    case Nil
    then show ?case by (simp add: touches_refl)
  next
    case (Cons z zs)
    obtain c v where z: "z = (c, v)" by (cases z)
    show ?case
      using touches_trans[OF touches_set_value Cons.IH] z by simp
  qed
  then show ?thesis by (simp add: set_values_def)
qed

lemma touches_enable: "touches obj st (enable_change_notification st obj)"
  by (simp add: enable_change_notification_def touches_upd_info)

lemma touches_disable: "touches obj st (disable_change_notification st obj)"
  by (simp add: disable_change_notification_def touches_upd_info)

lemma touches_checkpoint: "touches obj st (upd_info st obj checkpoint)"
  by (simp add: checkpoint_def touches_upd_info)

lemma touches_set_ghost: "touches obj st (set_ghost st obj)"
  by (simp add: set_ghost_def touches_def)

lemma touches_set_alive: "touches obj st (set_alive st obj)"
  by (simp add: set_alive_def touches_def)

lemma touches_add_to_cache: "add_to_cache st obj = (r, st') \<Longrightarrow> touches obj st st'"
  by (auto simp: add_to_cache_def Let_def touches_def upd_info_def update_conv' delete_conv'
           split: if_splits option.splits)

lemma touches_remove_from_cache: "remove_from_cache st obj = (r, st') \<Longrightarrow> touches obj st st'"
  by (auto simp: remove_from_cache_def Let_def touches_def upd_info_def delete_conv'
           split: if_splits option.splits)

lemma touches_fill_missing_values:
  "fill_missing_values db st obj = (r, st') \<Longrightarrow> touches obj st st'"
  unfolding fill_missing_values_def Let_def
  by (auto split: if_splits option.splits elim!: bind_cases
           intro: touches_refl touches_execute touches_trans[OF touches_execute touches_set_values])

lemma touches_flush_pending_remove:
  "flush_pending_remove db st obj = (r, st') \<Longrightarrow> touches obj st st'"
  unfolding flush_pending_remove_def Let_def
  by (auto split: option.splits elim!: bind_cases
           intro: touches_refl touches_execute
             touches_trans[OF touches_execute
               touches_trans[OF touches_disable touches_trans[OF touches_set_ghost touches_remove_from_cache]]])

lemma touches_flush_pending_add:
  "flush_pending_add db st obj = (r, st') \<Longrightarrow> touches obj st st'"
  unfolding flush_pending_add_def Let_def
  by (auto elim!: bind_cases
           intro: touches_execute touches_trans[OF touches_execute touches_fill_missing_values]
             touches_trans[OF touches_execute touches_trans[OF touches_fill_missing_values
               touches_trans[OF touches_enable touches_trans[OF touches_set_alive touches_add_to_cache]]]]
             touches_trans[OF touches_execute touches_trans[OF touches_fill_missing_values
               touches_trans[OF touches_enable touches_trans[OF touches_set_alive
                 touches_trans[OF touches_add_to_cache touches_checkpoint]]]]])

lemma touches_flush_changed:
  "flush_changed db st obj = (r, st') \<Longrightarrow> touches obj st st'"
  unfolding flush_changed_def Let_def
  by (auto split: if_splits option.splits elim!: bind_cases
           intro: touches_refl touches_checkpoint touches_execute
             touches_trans[OF touches_execute touches_add_to_cache]
             touches_trans[OF touches_execute touches_trans[OF touches_add_to_cache touches_checkpoint]])

lemma dirty_execute: "execute db st e = (r, st') \<Longrightarrow> dirty st' = dirty st"
  by (auto simp: execute_def split: reply.splits)

lemma dirty_add_to_cache: "add_to_cache st obj = (r, st') \<Longrightarrow> dirty st' = dirty st"
  by (auto simp: add_to_cache_def Let_def upd_info_def split: if_splits option.splits)

lemma dirty_remove_from_cache: "remove_from_cache st obj = (r, st') \<Longrightarrow> dirty st' = dirty st"
  by (auto simp: remove_from_cache_def Let_def upd_info_def split: if_splits option.splits)

lemma dirty_flush_pending_remove:
  "flush_pending_remove db st obj = (r, st') \<Longrightarrow> dirty st' = dirty st"
  unfolding flush_pending_remove_def Let_def
  by (auto split: option.splits elim!: bind_cases
           dest!: dirty_execute dirty_remove_from_cache
           simp: set_ghost_def disable_change_notification_def upd_info_def)

lemma dirty_flush_changed:
  "flush_changed db st obj = (r, st') \<Longrightarrow> dirty st' = dirty st"
  unfolding flush_changed_def Let_def
  by (auto split: if_splits option.splits elim!: bind_cases
           dest!: dirty_execute dirty_add_to_cache
           simp: upd_info_def)

lemma flush_one_cases:
  assumes "obj \<in> set (dirty st)" and "flush_one db st obj = (r, st')"
  obtains st3 where "touches obj (flush_start st obj) st3"
    and "(\<exists>e. r = Raise e \<and> st' = st3) \<or> (r = Return () \<and> st' = emit_flushed st3 obj)"
    and "oi_pending (infos st obj) \<noteq> Some PENDING_ADD \<longrightarrow> dirty st3 = removeAll obj (dirty st)"
proof -
  define st2 where "st2 = flush_start st obj"
  define body where "body = (case oi_pending (infos (set_clean st obj) obj) of
                    Some PENDING_REMOVE \<Rightarrow> flush_pending_remove db st2 obj
                  | Some PENDING_ADD \<Rightarrow> flush_pending_add db st2 obj
                  | None \<Rightarrow> flush_changed db st2 obj)"
  have pend: "oi_pending (infos (set_clean st obj) obj) = oi_pending (infos st obj)"
    by (simp add: set_clean_def)
  have d2: "dirty st2 = removeAll obj (dirty st)"
    by (simp add: st2_def flush_start_def upd_info_def set_clean_def)
  obtain r3 st3 where b: "body = (r3, st3)" by (cases body) auto
  have t: "touches obj st2 st3"
  proof (cases "oi_pending (infos st obj)")
    case None
    then show ?thesis using b pend touches_flush_changed by (simp add: body_def)
  next
    case (Some p)
    then show ?thesis using b pend touches_flush_pending_remove touches_flush_pending_add
      by (cases p) (simp_all add: body_def)
  qed
  have d: "oi_pending (infos st obj) \<noteq> Some PENDING_ADD \<longrightarrow> dirty st3 = removeAll obj (dirty st)"
  proof (cases "oi_pending (infos st obj)")
    case None
    then show ?thesis using b pend d2 dirty_flush_changed[of db st2 obj r3 st3]
      by (simp add: body_def)
  next
    case (Some p)
    then show ?thesis using b pend d2 dirty_flush_pending_remove[of db st2 obj r3 st3]
      by (cases p) (simp_all add: body_def)
  qed
  have "flush_one db st obj = (case body of (Raise e, st3) \<Rightarrow> (Raise e, st3)
            | (Return _, st3) \<Rightarrow> (Return (), emit_flushed st3 obj))"
    using assms(1) unfolding flush_one_def Let_def body_def st2_def flush_start_def by simp
  then have "(\<exists>e. r = Raise e \<and> st' = st3) \<or> (r = Return () \<and> st' = emit_flushed st3 obj)"
    using assms(2) b by (cases r3) auto
  then show ?thesis using that t d unfolding st2_def by blast
qed

lemma length_removeAll_less: "x \<in> set xs \<Longrightarrow> length (removeAll x xs) < length xs"
  by (induction xs) (auto simp: less_Suc_eq_le length_removeAll_less_eq)

lemma filter_removeAll_le:
  "length (filter P (removeAll x xs)) \<le> length (filter P xs)"
  by (induction xs) auto

lemma filter_removeAll_less:
  "x \<in> set xs \<Longrightarrow> P x \<Longrightarrow> length (filter P (removeAll x xs)) < length (filter P xs)"
  by (induction xs) (auto simp: less_Suc_eq_le filter_removeAll_le)

lemma flush_one_measure:
  assumes "obj \<in> set (dirty st)" and "flush_one db st obj = (r, st')"
  shows "flush_measure st' < flush_measure st"
proof -
  obtain st3 where t: "touches obj (flush_start st obj) st3"
    and r: "(\<exists>e. r = Raise e \<and> st' = st3) \<or> (r = Return () \<and> st' = emit_flushed st3 obj)"
    and d: "oi_pending (infos st obj) \<noteq> Some PENDING_ADD \<longrightarrow> dirty st3 = removeAll obj (dirty st)"
    using flush_one_cases[OF assms] by blast
  let ?P = "\<lambda>s x. oi_pending (infos s x) = Some PENDING_ADD"
  have m: "flush_measure st' = flush_measure st3"
    using r by (auto simp: flush_measure_def emit_flushed_def)
  have p3: "?P st3 x = (x \<noteq> obj \<and> ?P st x)" for x
    using t by (cases "x = obj") (simp_all add: touches_def flush_start_def upd_info_def set_clean_def)
  have f3: "filter (?P st3) xs = filter (?P st) (removeAll obj xs)" for xs
    by (induction xs) (auto simp: p3)
  have d3: "dirty st3 = removeAll obj (dirty st) \<or> dirty st3 = removeAll obj (dirty st) @ [obj]"
    using t by (auto simp: touches_def flush_start_def upd_info_def set_clean_def)
  show ?thesis
  proof (cases "oi_pending (infos st obj) = Some PENDING_ADD")
    case True
    have "length (dirty st3) \<le> length (dirty st)"
      using d3 length_removeAll_less[OF assms(1)] by auto
    moreover have "length (filter (?P st3) (dirty st3)) < length (filter (?P st) (dirty st))"
      using d3 f3 filter_removeAll_less[of obj "dirty st" "?P st", OF assms(1) True] by auto
    ultimately show ?thesis using m by (simp add: flush_measure_def)
  next
    case False
    then have "dirty st3 = removeAll obj (dirty st)" using d by simp
    then have "length (dirty st3) < length (dirty st)"
      and "length (filter (?P st3) (dirty st3)) \<le> length (filter (?P st) (dirty st))"
      using length_removeAll_less[OF assms(1)] f3 filter_removeAll_le[of "?P st" obj "dirty st"]
      by auto
    then show ?thesis using m by (simp add: flush_measure_def)
  qed
qed

termination flush_loop
proof (relation "measure (\<lambda>(preds, db, st). flush_measure st)", goal_cases)
  case 1
  show ?case by simp
next
  case (2 preds db st obj x st1 u)
  then have "obj \<in> set (dirty st)"
    by (auto simp: find_Some_iff)
  then have "flush_measure st1 < flush_measure st"
    using 2(3) flush_one_measure[of obj st db x st1] by simp
  then show ?case by simp
qed

declare flush_loop.simps [simp del]

section \<open>Usage errors, add and remove\<close>

text \<open>
  C4. Each of the four usage errors raises a \<open>StoreError\<close> with a message of its
  own and returns the state it was called in: \<open>add\<close> on an object already scheduled
  to be added, \<open>remove\<close> on an object already scheduled to be removed, \<open>add\<close>
  on an object owned by another store, and \<open>reload\<close> on an object of this store
  that was never flushed (it has no primary values). The state returned is the whole
  state: cache, dirty set, ghost set, order table and every object.
\<close>

theorem usage_errors_leave_state:
  "(oi_store (infos st a) = Some (self_id st) \<and> oi_pending (infos st a) = Some PENDING_ADD
      \<longrightarrow> add st a = (Raise (StoreError AlreadyScheduledToBeAdded), st))
   \<and> (oi_store (infos st b) = Some (self_id st) \<and> oi_pending (infos st b) = Some PENDING_REMOVE
      \<longrightarrow> remove st b = (Raise (StoreError AlreadyScheduledToBeRemoved), st))
   \<and> (oi_store (infos st c) = Some other \<and> other \<noteq> self_id st
      \<longrightarrow> add st c = (Raise (StoreError PartOfAnotherStore), st))
   \<and> (oi_store (infos st d) = Some (self_id st) \<and> oi_primary_values (infos st d) = None
      \<longrightarrow> reload db st d = (Raise (StoreError NeverFlushed), st))
   \<and> distinct [AlreadyScheduledToBeAdded, AlreadyScheduledToBeRemoved, PartOfAnotherStore,
        NeverFlushed]"
  by (simp add: add_def remove_def reload_def Let_def)

theorem usage_errors_leave_state_witness:
  "oi_store (infos usage_store 1) = Some (self_id usage_store)
   \<and> oi_pending (infos usage_store 1) = Some PENDING_ADD
   \<and> oi_pending (infos usage_store 2) = Some PENDING_REMOVE
   \<and> oi_store (infos usage_store 3) = Some 7 \<and> 7 \<noteq> self_id usage_store
   \<and> oi_primary_values (infos usage_store 1) = None
   \<and> add usage_store 1 = (Raise (StoreError AlreadyScheduledToBeAdded), usage_store)
   \<and> remove usage_store 2 = (Raise (StoreError AlreadyScheduledToBeRemoved), usage_store)
   \<and> add usage_store 3 = (Raise (StoreError PartOfAnotherStore), usage_store)
   \<and> reload (db_rows []) usage_store 1 = (Raise (StoreError NeverFlushed), usage_store)"
proof -
  have h: "oi_store (infos usage_store 1) = Some (self_id usage_store)"
      "oi_pending (infos usage_store 1) = Some PENDING_ADD"
      "oi_store (infos usage_store 2) = Some (self_id usage_store)"
      "oi_pending (infos usage_store 2) = Some PENDING_REMOVE"
      "oi_store (infos usage_store 3) = Some 7" "7 \<noteq> self_id usage_store"
      "oi_primary_values (infos usage_store 1) = None"
    by (simp_all add: usage_store_def store0_def new_obj_info_def)
  show ?thesis
    using usage_errors_leave_state[of usage_store 1 2 3 7 1 "db_rows []"] h
    by simp
qed

text \<open>
  C5. For an object without pending flag on which \<open>add\<close> returns, a following
  \<open>remove\<close> returns as well and leaves the object without pending flag and out of
  the dirty set.
\<close>

theorem add_then_remove_annihilate:
  assumes "oi_pending (infos st obj) = None" and "fst (add st obj) = Return ()"
  shows "fst (remove (snd (add st obj)) obj) = Return ()
       \<and> oi_pending (infos (snd (remove (snd (add st obj)) obj)) obj) = None
       \<and> \<not> is_dirty (snd (remove (snd (add st obj)) obj)) obj"
  using assms
  by (auto simp: add_def remove_def Let_def upd_info_def set_dirty_def set_clean_def set_ghost_def
        set_alive_def is_dirty_def save_def split: if_splits)

theorem add_then_remove_annihilate_witness:
  "oi_pending (infos store0 1) = None \<and> fst (add store0 1) = Return ()
   \<and> oi_pending (infos (snd (add store0 1)) 1) = Some PENDING_ADD
   \<and> is_dirty (snd (add store0 1)) 1
   \<and> fst (remove (snd (add store0 1)) 1) = Return ()
   \<and> oi_pending (infos (snd (remove (snd (add store0 1)) 1)) 1) = None
   \<and> \<not> is_dirty (snd (remove (snd (add store0 1)) 1)) 1"
proof -
  have h1: "oi_pending (infos store0 1) = None"
    by (simp add: store0_def new_obj_info_def)
  have h2: "fst (add store0 1) = Return ()"
    by (simp add: add_def Let_def store0_def new_obj_info_def)
  have h3: "oi_pending (infos (snd (add store0 1)) 1) = Some PENDING_ADD \<and> is_dirty (snd (add store0 1)) 1"
    by (simp add: add_def Let_def store0_def new_obj_info_def upd_info_def set_dirty_def is_dirty_def save_def)
  show ?thesis
    using add_then_remove_annihilate[OF h1 h2] h1 h2 h3 by simp
qed

text \<open>
  C10. For an object owned by the store without pending flag, \<open>remove\<close> and then
  \<open>add\<close> both return, and the state they leave is the initial state with the object
  in the dirty set: the pending flag is clear again, the object stays dirty, nothing else
  has changed.
\<close>

theorem remove_then_add_leaves_dirty:
  assumes "oi_store (infos st obj) = Some (self_id st)" and "oi_pending (infos st obj) = None"
  shows "fst (remove st obj) = Return ()
       \<and> add (snd (remove st obj)) obj = (Return (), set_dirty st obj)
       \<and> oi_pending (infos (set_dirty st obj) obj) = None
       \<and> is_dirty (set_dirty st obj) obj"
proof -
  have e: "(infos st obj)\<lparr>oi_pending := None\<rparr> = infos st obj"
    using assms(2) by (cases "infos st obj") simp
  have f: "(infos st)(obj := (infos st obj)\<lparr>oi_pending := None\<rparr>) = infos st"
    by (simp only: e fun_upd_triv)
  show ?thesis
    using assms
    by (simp add: add_def remove_def Let_def upd_info_def set_dirty_def is_dirty_def f)
qed

theorem remove_then_add_leaves_dirty_witness:
  "oi_store (infos alive_store 2) = Some (self_id alive_store)
   \<and> oi_pending (infos alive_store 2) = None
   \<and> \<not> is_dirty alive_store 2
   \<and> fst (remove alive_store 2) = Return ()
   \<and> add (snd (remove alive_store 2)) 2 = (Return (), alive_store\<lparr>dirty := [2]\<rparr>)
   \<and> is_dirty (set_dirty alive_store 2) 2"
proof -
  have h1: "oi_store (infos alive_store 2) = Some (self_id alive_store)"
    by (simp add: alive_store_def store0_def new_obj_info_def)
  have h2: "oi_pending (infos alive_store 2) = None"
    by (simp add: alive_store_def store0_def new_obj_info_def)
  have h3: "\<not> is_dirty alive_store 2"
    by (simp add: alive_store_def store0_def is_dirty_def)
  have h4: "set_dirty alive_store 2 = alive_store\<lparr>dirty := [2]\<rparr>"
    by (simp add: alive_store_def store0_def set_dirty_def)
  show ?thesis
    using remove_then_add_leaves_dirty[OF h1 h2] h1 h2 h3 h4 by simp
qed

section \<open>The order table\<close>

lemma order_add: "map_of (order (add_flush_order st b a)) (b, a)
     = Some (case map_of (order st) (b, a) of None \<Rightarrow> 1 | Some n \<Rightarrow> n + 1)"
  by (simp add: add_flush_order_def Let_def update_conv' split: option.splits)

lemma order_remove_present: "map_of (order st) (b, a) = Some n \<Longrightarrow>
    map_of (order (remove_flush_order st b a)) (b, a) = Some (n - 1)"
  by (simp add: remove_flush_order_def Let_def update_conv')

lemma order_remove_absent: "map_of (order st) (b, a) = None \<Longrightarrow> remove_flush_order st b a = st"
  by (simp add: remove_flush_order_def Let_def)

lemma order_calls_present:
  "map_of (order st) (b, a) = Some n \<Longrightarrow>
   map_of (order (order_calls st b a cs)) (b, a)
     = Some (n + int (length (filter (\<lambda>c. c = AddOrder) cs))
               - int (length (filter (\<lambda>c. c = RemoveOrder) cs)))"
proof (induction cs arbitrary: st n)
  case Nil
  then show ?case by simp
next
  case (Cons c cs)
  show ?case
  proof (cases c)
    case AddOrder
    have "map_of (order (add_flush_order st b a)) (b, a) = Some (n + 1)"
      using Cons.prems order_add[of st b a] by simp
    from Cons.IH[OF this] show ?thesis using AddOrder by simp
  next
    case RemoveOrder
    from Cons.IH[OF order_remove_present[OF Cons.prems]] show ?thesis using RemoveOrder by simp
  qed
qed

lemma predecessors_iff:
  "b \<in> set (predecessors ord a) \<longleftrightarrow> (\<exists>n. ((b, a), n) \<in> set ord \<and> n > 0)"
  by (force simp: predecessors_def)

lemma flush_clears_order: "flush db st = (Return (), st') \<Longrightarrow> order st' = []"
  by (auto simp: flush_def split: prod.splits outcome.splits)

text \<open>
  C6 (amended). \<open>add_flush_order\<close> increments the counter of the pair, creating it
  at 1 when the pair has no entry. \<open>remove_flush_order\<close> decrements the counter
  when the pair has an entry and does nothing when it has none. So for a pair that has an
  entry, or for calls that start with an add, the counter after a series of calls is the
  counter before plus the adds minus the removes: equal numbers cancel. A predecessor in
  \<open>flush\<close> comes only from an entry whose count is greater than zero, and after a
  flush that returns the table is empty.
\<close>

theorem flush_order_counts:
  "map_of (order (add_flush_order st b a)) (b, a)
     = Some (case map_of (order st) (b, a) of None \<Rightarrow> 1 | Some n \<Rightarrow> n + 1)
   \<and> (\<forall>n. map_of (order st) (b, a) = Some n \<longrightarrow>
         map_of (order (remove_flush_order st b a)) (b, a) = Some (n - 1))
   \<and> (map_of (order st) (b, a) = None \<longrightarrow> remove_flush_order st b a = st)
   \<and> (\<forall>n. map_of (order st) (b, a) = Some n \<longrightarrow>
         map_of (order (order_calls st b a cs)) (b, a)
           = Some (n + int (length (filter (\<lambda>c. c = AddOrder) cs))
                     - int (length (filter (\<lambda>c. c = RemoveOrder) cs))))
   \<and> (map_of (order st) (b, a) = None \<longrightarrow>
         map_of (order (order_calls st b a (AddOrder # cs))) (b, a)
           = Some (1 + int (length (filter (\<lambda>c. c = AddOrder) cs))
                     - int (length (filter (\<lambda>c. c = RemoveOrder) cs))))
   \<and> (x \<in> set (predecessors (order st) y) \<longleftrightarrow> (\<exists>n. ((x, y), n) \<in> set (order st) \<and> n > 0))
   \<and> (flush db st = (Return (), st') \<longrightarrow> order st' = [])"
proof -
  have 5: "map_of (order st) (b, a) = None \<Longrightarrow>
         map_of (order (order_calls st b a (AddOrder # cs))) (b, a)
           = Some (1 + int (length (filter (\<lambda>c. c = AddOrder) cs))
                     - int (length (filter (\<lambda>c. c = RemoveOrder) cs)))"
  proof -
    assume "map_of (order st) (b, a) = None"
    then have "map_of (order (add_flush_order st b a)) (b, a) = Some 1"
      using order_add[of st b a] by simp
    from order_calls_present[OF this] show ?thesis by simp
  qed
  show ?thesis
  proof (intro conjI allI impI)
    show "(x \<in> set (predecessors (order st) y)) = (\<exists>n. ((x, y), n) \<in> set (order st) \<and> n > 0)"
      by (rule predecessors_iff)
  qed (rule order_add order_remove_present order_remove_absent order_calls_present 5
         flush_clears_order; assumption?)+
qed

lemmas eval_order = add_flush_order_def remove_flush_order_def Let_def store0_def AList.update.simps
  predecessors_def

text \<open>
  The claim as stated fails when the remove comes first on a pair without entry: one
  remove and one add leave the counter at 1 and the constraint in force.
\<close>

theorem remove_before_add_counterexample:
  "map_of (order store0) (1, 2) = None
   \<and> remove_flush_order store0 1 2 = store0
   \<and> map_of (order (order_calls store0 1 2 [RemoveOrder, AddOrder])) (1, 2) = Some 1
   \<and> predecessors (order (order_calls store0 1 2 [RemoveOrder, AddOrder])) 2 = [1]"
  by (simp add: eval_order)

theorem flush_order_counts_witness:
  "map_of (order (add_flush_order store0 1 2)) (1, 2) = Some 1
   \<and> map_of (order (remove_flush_order (add_flush_order store0 1 2) 1 2)) (1, 2) = Some 0
   \<and> map_of (order (order_calls (add_flush_order store0 1 2) 1 2 [AddOrder, RemoveOrder, RemoveOrder])) (1, 2)
        = Some 0
   \<and> map_of (order store0) (1, 2) = None
   \<and> remove_flush_order store0 1 2 = store0
   \<and> map_of (order (order_calls store0 1 2 [AddOrder, RemoveOrder])) (1, 2) = Some 0
   \<and> 1 \<in> set (predecessors (order (add_flush_order store0 1 2)) 2)
   \<and> 1 \<notin> set (predecessors (order (remove_flush_order (add_flush_order store0 1 2) 1 2)) 2)
   \<and> flush (db_rows []) (add_flush_order store0 1 2) = (Return (), store0)
   \<and> order store0 = []"
proof -
  let ?a = "add_flush_order store0 1 2"
  have h1: "map_of (order ?a) (1, 2) = Some 1" by (simp add: eval_order)
  have h2: "map_of (order store0) (1, 2) = None" by (simp add: store0_def)
  have h3: "flush (db_rows []) ?a = (Return (), store0)"
    by (simp add: eval_order flush_def flush_loop.simps)
  have h4: "((1, 2), 1) \<in> set (order ?a) \<and> (0::int) < 1" by (simp add: eval_order)
  have h5: "\<not> (\<exists>n. ((1, 2), n) \<in> set (order (remove_flush_order ?a 1 2)) \<and> 0 < n)"
    by (simp add: eval_order)
  note A = flush_order_counts[of ?a 1 2 "[AddOrder, RemoveOrder, RemoveOrder]" 1 2 "db_rows []" store0]
  note B = flush_order_counts[of store0 1 2 "[RemoveOrder]" 1 2 "db_rows []" store0]
  note C = flush_order_counts[of "remove_flush_order ?a 1 2" 1 2 "[]" 1 2 "db_rows []" store0]
  have a2: "map_of (order (remove_flush_order ?a 1 2)) (1, 2) = Some 0"
    using A h1 by simp
  have a3: "map_of (order (order_calls ?a 1 2 [AddOrder, RemoveOrder, RemoveOrder])) (1, 2) = Some 0"
    using A h1 by simp
  have a6: "1 \<in> set (predecessors (order ?a) 2)"
    using A h4 by blast
  have a7: "order store0 = []"
    using A h3 by blast
  have b1: "remove_flush_order store0 1 2 = store0"
    using B h2 by blast
  have b2: "map_of (order (order_calls store0 1 2 [AddOrder, RemoveOrder])) (1, 2) = Some 0"
    using B h2 by simp
  have c1: "1 \<notin> set (predecessors (order (remove_flush_order ?a 1 2)) 2)"
    using C h5 by blast
  show ?thesis using h1 h2 h3 a2 a3 a6 a7 b1 b2 c1 by blast
qed

section \<open>Exceptions of a flush; the key of get\<close>

lemma raise_execute: "execute db st ex = (Raise e, st') \<Longrightarrow> e = BackendError"
  by (auto simp: execute_def split: reply.splits)

lemma raise_add_to_cache: "add_to_cache st obj = (Raise e, st') \<Longrightarrow> e = KeyError"
  by (auto simp: add_to_cache_def Let_def split: if_splits option.splits)

lemma raise_remove_from_cache: "remove_from_cache st obj = (Raise e, st') \<Longrightarrow> e = KeyError"
  by (auto simp: remove_from_cache_def Let_def split: if_splits option.splits)

lemma raise_fill_missing_values:
  "fill_missing_values db st obj = (Raise e, st') \<Longrightarrow> flush_one_exn e"
  unfolding fill_missing_values_def Let_def
  by (auto split: if_splits option.splits elim!: bind_cases dest!: raise_execute
           simp: flush_one_exn_def)

lemma raise_flush_pending_remove:
  "flush_pending_remove db st obj = (Raise e, st') \<Longrightarrow> flush_one_exn e"
  unfolding flush_pending_remove_def Let_def
  by (auto split: option.splits elim!: bind_cases dest!: raise_execute raise_remove_from_cache
           simp: flush_one_exn_def)

lemma raise_flush_pending_add:
  "flush_pending_add db st obj = (Raise e, st') \<Longrightarrow> flush_one_exn e"
  unfolding flush_pending_add_def Let_def
  by (auto elim!: bind_cases dest!: raise_execute raise_add_to_cache raise_fill_missing_values
           simp: flush_one_exn_def)

lemma raise_flush_changed:
  "flush_changed db st obj = (Raise e, st') \<Longrightarrow> flush_one_exn e"
  unfolding flush_changed_def Let_def
  by (auto split: if_splits option.splits elim!: bind_cases dest!: raise_execute raise_add_to_cache
           simp: flush_one_exn_def)

lemma raise_flush_one: "flush_one db st obj = (Raise e, st') \<Longrightarrow> flush_one_exn e"
  unfolding flush_one_def Let_def
  by (auto split: if_splits option.splits pending.splits elim!: bind_cases
           dest!: raise_flush_pending_remove raise_flush_pending_add raise_flush_changed)

lemma raise_flush_loop:
  "flush_loop preds db st = (Raise e, st') \<Longrightarrow> e = StoreError OrderingLoop \<or> flush_one_exn e"
proof (induction preds db st rule: flush_loop.induct)
  case (1 preds db st)
  show ?case
  proof (cases "dirty st = []")
    case True
    then show ?thesis using 1(2) by (simp add: flush_loop.simps)
  next
    case False
    show ?thesis
    proof (cases "find (\<lambda>obj_id. \<forall>before \<in> set (preds obj_id). before \<notin> set (dirty st)) (dirty st)")
      case None
      then show ?thesis using 1(2) False by (simp add: flush_loop.simps)
    next
      case (Some obj)
      obtain r st1 where f: "flush_one db st obj = (r, st1)" by (cases "flush_one db st obj") auto
      show ?thesis
      proof (cases r)
        case (Return u)
        then have "flush_loop preds db st1 = (Raise e, st')"
          using 1(2) False Some f by (simp add: flush_loop.simps)
        then show ?thesis using 1(1)[OF False Some f[symmetric] Return] by simp
      next
        case (Raise e')
        then have "e = e'" using 1(2) False Some f by (simp add: flush_loop.simps)
        then show ?thesis using raise_flush_one f Raise by blast
      qed
    qed
  qed
qed

lemma raise_flush:
  "flush db st = (Raise e, st') \<Longrightarrow> e = StoreError OrderingLoop \<or> flush_one_exn e"
  by (auto simp: flush_def split: prod.splits outcome.splits dest: raise_flush_loop)

lemma raise_load_object: "load_object st cls vals = (Raise e, st') \<Longrightarrow> e = IndexError \<or> e = KeyError"
  unfolding load_object_def Let_def
  by (auto split: if_splits option.splits elim!: bind_cases dest!: raise_add_to_cache)

text \<open>
  C9. \<open>get\<close> treats a key that is not a tuple as the one-element tuple of it. When
  the flush at its start returns and the length of the key differs from the number of
  primary-key columns, \<open>get\<close> raises \<open>AssertionError\<close> (which is no
  \<open>StoreError\<close>) in the state the flush left. When the lengths agree, \<open>get\<close>
  never raises \<open>AssertionError\<close>.
\<close>

theorem get_key_assertion:
  "(\<not> is_tuple key \<longrightarrow> get db st cls key = get db st cls (PyTuple [key]))
   \<and> (fst (flush db st) = Return () \<and> length (key_tuple key) \<noteq> length (primary_key cls)
        \<longrightarrow> get db st cls key = (Raise AssertionError, snd (flush db st)))
   \<and> (length (key_tuple key) = length (primary_key cls)
        \<longrightarrow> fst (get db st cls key) \<noteq> Raise AssertionError)"
proof (intro conjI impI)
  assume "\<not> is_tuple key"
  then have kt: "key_tuple (PyTuple [key]) = key_tuple key"
    by (cases key) (simp_all add: is_tuple_def key_tuple_def)
  show "get db st cls key = get db st cls (PyTuple [key])"
    unfolding get_def kt ..
next
  assume "fst (flush db st) = Return () \<and> length (key_tuple key) \<noteq> length (primary_key cls)"
  then show "get db st cls key = (Raise AssertionError, snd (flush db st))"
    by (cases "flush db st") (simp add: get_def)
next
  assume len: "length (key_tuple key) = length (primary_key cls)"
  show "fst (get db st cls key) \<noteq> Raise AssertionError"
  proof
    assume a: "fst (get db st cls key) = Raise AssertionError"
    obtain st' where g: "get db st cls key = (Raise AssertionError, st')"
      using a by (cases "get db st cls key") simp
    from g len show False
      unfolding get_def Let_def
      by (auto split: if_splits option.splits elim!: bind_cases
               dest!: raise_flush raise_execute raise_load_object simp: flush_one_exn_def)
  qed
qed

lemmas eval_get = get_def key_tuple_def Let_def flush_def flush_loop.simps store0_def Foo_def
  predecessors_def execute_def db_rows_def get_one_def is_tuple_def

theorem get_key_assertion_witness:
  "\<not> is_tuple (PyInt 5)
   \<and> get (db_rows []) store0 Foo (PyInt 5) = get (db_rows []) store0 Foo (PyTuple [PyInt 5])
   \<and> fst (flush (db_rows []) store0) = Return ()
   \<and> length (key_tuple (PyTuple [PyInt 1, PyInt 2])) \<noteq> length (primary_key Foo)
   \<and> get (db_rows []) store0 Foo (PyTuple [PyInt 1, PyInt 2]) = (Raise AssertionError, store0)
   \<and> length (key_tuple (PyInt 5)) = length (primary_key Foo)
   \<and> fst (get (db_rows []) store0 Foo (PyInt 5)) \<noteq> Raise AssertionError
   \<and> fst (get (db_rows []) store0 Foo (PyInt 5)) = Return None"
proof -
  have h1: "\<not> is_tuple (PyInt 5)" by (simp add: is_tuple_def)
  have h2: "fst (flush (db_rows []) store0) = Return ()" "snd (flush (db_rows []) store0) = store0"
    by (simp_all add: eval_get)
  have h3: "length (key_tuple (PyTuple [PyInt 1, PyInt 2])) \<noteq> length (primary_key Foo)"
    by (simp add: key_tuple_def Foo_def)
  have h4: "length (key_tuple (PyInt 5)) = length (primary_key Foo)"
    by (simp add: key_tuple_def Foo_def)
  have h5: "fst (get (db_rows []) store0 Foo (PyInt 5)) = Return None"
    by (simp add: eval_get)
  note A = get_key_assertion[of "PyInt 5" "db_rows []" store0 Foo]
  note B = get_key_assertion[of "PyTuple [PyInt 1, PyInt 2]" "db_rows []" store0 Foo]
  have a1: "get (db_rows []) store0 Foo (PyInt 5) = get (db_rows []) store0 Foo (PyTuple [PyInt 5])"
    using A h1 by blast
  have a2: "fst (get (db_rows []) store0 Foo (PyInt 5)) \<noteq> Raise AssertionError"
    using A h4 by blast
  have b1: "get (db_rows []) store0 Foo (PyTuple [PyInt 1, PyInt 2]) = (Raise AssertionError, store0)"
    using B h2 h3 by simp
  show ?thesis using h1 h2 h3 h4 h5 a1 a2 b1 by blast
qed

section \<open>Field writes and the dirty set\<close>

lemmas eval_store = add_def Let_def fresh_store_def store0_def new_obj_info_def upd_info_def
     set_dirty_def save_def flush_def flush_loop.simps predecessors_def flush_one_def set_clean_def
     flush_pending_add_def get_value_def execute_def db_rows_def to_database_def
     fill_missing_values_def has_value_def enable_change_notification_def set_alive_def
     add_to_cache_def checkpoint_def emit_flushed_def Foo_def

lemma flushed_store_eq:
  "flushed_store = \<lparr>self_id = 1,
     infos = (\<lambda>obj. new_obj_info Foo)
       (2 := \<lparr>oi_cls = Foo, oi_store = Some 1, oi_pending = None,
               oi_primary_values = Some [PyInt 5],
               oi_values = [(''id'', PyInt 5), (''title'', PyStr ''a'')],
               oi_checkpoint = [(''id'', PyInt 5), (''title'', PyStr ''a'')],
               oi_saved = Some (None, None, None, [(''id'', PyInt 5), (''title'', PyStr ''a'')]),
               oi_changed_hook = True\<rparr>),
     next_obj = 100, cache = [((Foo, [PyInt 5]), 2)], ghosts = [], dirty = [], order = [],
     calls = [Execute (Insert [''id'', ''title''] [PyInt 5, PyStr ''a''] ''foo'')],
     flushed = [2]\<rparr>"
  by (simp add: flushed_store_def eval_store)

lemma set_value_keeps_dirty: "is_dirty st x \<Longrightarrow> is_dirty (set_value st obj name v) x"
  by (simp add: set_value_def Let_def object_changed_def set_dirty_def upd_info_def is_dirty_def)

lemma set_value_hook:
  "oi_changed_hook (infos (set_value st obj name v) obj) = oi_changed_hook (infos st obj)"
  by (simp add: set_value_def Let_def object_changed_def set_dirty_def upd_info_def)

lemma set_value_checkpoint:
  "checkpointed_value (infos (set_value st obj name v) obj) n = checkpointed_value (infos st obj) n"
  by (simp add: set_value_def Let_def object_changed_def set_dirty_def upd_info_def
        checkpointed_value_def)

lemma set_value_checkpointed:
  "v = checkpointed_value (infos st obj) name \<Longrightarrow> dirty (set_value st obj name v) = dirty st"
  by (simp add: set_value_def Let_def upd_info_def)

lemma set_value_dirty_iff:
  "oi_changed_hook (infos st obj) \<Longrightarrow>
   is_dirty (set_value st obj name v) obj
     \<longleftrightarrow> is_dirty st obj \<or> (v \<noteq> Undef \<and> v \<noteq> checkpointed_value (infos st obj) name)"
  by (simp add: set_value_def Let_def object_changed_def set_dirty_def upd_info_def is_dirty_def)

lemma field_writes_dirty_iff:
  "oi_changed_hook (infos st obj) \<Longrightarrow>
   is_dirty (field_writes st obj writes) obj
     \<longleftrightarrow> is_dirty st obj
         \<or> (\<exists>w \<in> set writes. snd w \<noteq> Undef \<and> snd w \<noteq> checkpointed_value (infos st obj) (fst w))"
proof (induction writes arbitrary: st)
  case Nil
  then show ?case by (simp add: field_writes_def)
next
  case (Cons w ws)
  obtain n v where w: "w = (n, v)" by (cases w)
  let ?s = "set_value st obj n v"
  have step: "field_writes st obj (w # ws) = field_writes ?s obj ws"
    by (simp add: field_writes_def w)
  have h: "oi_changed_hook (infos ?s obj)"
    using Cons.prems by (simp add: set_value_hook)
  have "is_dirty (field_writes ?s obj ws) obj
     \<longleftrightarrow> is_dirty ?s obj
         \<or> (\<exists>w \<in> set ws. snd w \<noteq> Undef \<and> snd w \<noteq> checkpointed_value (infos st obj) (fst w))"
    using Cons.IH[OF h] by (simp add: set_value_checkpoint)
  then show ?case
    unfolding step using set_value_dirty_iff[OF Cons.prems, of n v] by (auto simp: w)
qed

lemma flush_unchanged_no_statement:
  "obj \<in> set (dirty st) \<Longrightarrow> oi_pending (infos st obj) = None \<Longrightarrow> \<not> check_changed (infos st obj) \<Longrightarrow>
   fst (flush_one db st obj) = Return () \<and> calls (snd (flush_one db st obj)) = calls st"
  by (simp add: flush_one_def Let_def set_clean_def upd_info_def flush_changed_def check_changed_def
        emit_flushed_def)

text \<open>
  C1 (amended). \<open>_object_changed\<close> marks the object dirty whenever the new value
  of the event is not \<open>Undef\<close> and leaves the store as it is when the new value is
  \<open>Undef\<close>; it does not consult the checkpoint and takes no object out of the dirty
  set. The claim is right for a single write: a field write whose new value equals the
  checkpointed value leaves the dirty set as it is (the field write fires no "changed"
  then), while on an object with change notification enabled a write of any other value
  than \<open>Undef\<close> marks the object dirty. No field write takes an object out of the
  dirty set. So, with change notification enabled, the object is dirty after a series of
  field writes exactly when it was dirty before or one of the writes wrote a value that is
  neither \<open>Undef\<close> nor the checkpointed value of its field: a series that
  culminates in the checkpointed value leaves the object dirty when it passed through
  another value. Such a series is suppressed at the flush: a dirty object without pending
  flag whose values equal the checkpoint sends no statement.
\<close>

theorem field_write_marks_dirty:
  "(new_value \<noteq> Undef \<longrightarrow> is_dirty (object_changed st obj name old_value new_value) obj)
   \<and> (new_value = Undef \<longrightarrow> object_changed st obj name old_value new_value = st)
   \<and> (v = checkpointed_value (infos st obj) name \<longrightarrow> dirty (set_value st obj name v) = dirty st)
   \<and> (oi_changed_hook (infos st obj) \<and> v \<noteq> Undef \<and> v \<noteq> checkpointed_value (infos st obj) name
        \<longrightarrow> is_dirty (set_value st obj name v) obj)
   \<and> (is_dirty st x \<longrightarrow> is_dirty (set_value st obj name v) x)
   \<and> (oi_changed_hook (infos st obj) \<longrightarrow>
        (is_dirty (field_writes st obj writes) obj
           \<longleftrightarrow> is_dirty st obj
               \<or> (\<exists>w \<in> set writes. snd w \<noteq> Undef
                      \<and> snd w \<noteq> checkpointed_value (infos st obj) (fst w))))
   \<and> (obj \<in> set (dirty st) \<and> oi_pending (infos st obj) = None \<and> \<not> check_changed (infos st obj)
        \<longrightarrow> fst (flush_one db st obj) = Return () \<and> calls (snd (flush_one db st obj)) = calls st)"
proof (intro conjI impI)
  show "new_value \<noteq> Undef \<Longrightarrow> is_dirty (object_changed st obj name old_value new_value) obj"
    by (simp add: object_changed_def set_dirty_def is_dirty_def)
  show "new_value = Undef \<Longrightarrow> object_changed st obj name old_value new_value = st"
    by (simp add: object_changed_def)
  show "v = checkpointed_value (infos st obj) name \<Longrightarrow> dirty (set_value st obj name v) = dirty st"
    by (rule set_value_checkpointed)
  show "oi_changed_hook (infos st obj) \<and> v \<noteq> Undef \<and> v \<noteq> checkpointed_value (infos st obj) name
      \<Longrightarrow> is_dirty (set_value st obj name v) obj"
    by (simp add: set_value_dirty_iff)
  show "is_dirty st x \<Longrightarrow> is_dirty (set_value st obj name v) x"
    by (rule set_value_keeps_dirty)
  show "oi_changed_hook (infos st obj) \<Longrightarrow>
      is_dirty (field_writes st obj writes) obj
        \<longleftrightarrow> is_dirty st obj
            \<or> (\<exists>w \<in> set writes. snd w \<noteq> Undef
                   \<and> snd w \<noteq> checkpointed_value (infos st obj) (fst w))"
    by (rule field_writes_dirty_iff)
  show "obj \<in> set (dirty st) \<and> oi_pending (infos st obj) = None \<and> \<not> check_changed (infos st obj)
      \<Longrightarrow> fst (flush_one db st obj) = Return ()"
    using flush_unchanged_no_statement by blast
  show "obj \<in> set (dirty st) \<and> oi_pending (infos st obj) = None \<and> \<not> check_changed (infos st obj)
      \<Longrightarrow> calls (snd (flush_one db st obj)) = calls st"
    using flush_unchanged_no_statement by blast
qed

lemmas eval_write = set_value_def Let_def upd_info_def object_changed_def set_dirty_def
  get_value_def is_dirty_def field_writes_def checkpointed_value_def

text \<open>
  The claim as stated fails on the object of \<open>flushed_store\<close>: it is clean and its
  title is checkpointed as "a"; writing "b" and then "a" again leaves the values equal to
  the checkpoint and the object dirty.
\<close>

theorem no_op_write_counterexample:
  "oi_changed_hook (infos flushed_store 2) \<and> \<not> is_dirty flushed_store 2
   \<and> map_of (oi_checkpoint (infos flushed_store 2)) ''title'' = Some (PyStr ''a'')
   \<and> oi_values (infos (field_writes flushed_store 2 [(''title'', PyStr ''b''), (''title'', PyStr ''a'')]) 2)
       = oi_checkpoint (infos (field_writes flushed_store 2 [(''title'', PyStr ''b''), (''title'', PyStr ''a'')]) 2)
   \<and> is_dirty (field_writes flushed_store 2 [(''title'', PyStr ''b''), (''title'', PyStr ''a'')]) 2"
  by (simp add: flushed_store_eq eval_write)

theorem field_write_marks_dirty_witness:
  "oi_changed_hook (infos flushed_store 2) \<and> \<not> is_dirty flushed_store 2
   \<and> checkpointed_value (infos flushed_store 2) ''title'' = PyStr ''a''
   \<and> is_dirty (object_changed flushed_store 2 ''title'' (PyStr ''a'') (PyStr ''b'')) 2
   \<and> object_changed flushed_store 2 ''title'' (PyStr ''a'') Undef = flushed_store
   \<and> dirty (set_value flushed_store 2 ''title'' (PyStr ''a'')) = []
   \<and> is_dirty (set_value flushed_store 2 ''title'' (PyStr ''b'')) 2
   \<and> is_dirty (set_value (set_value flushed_store 2 ''title'' (PyStr ''b'')) 2 ''title'' (PyStr ''a'')) 2
   \<and> \<not> is_dirty (field_writes flushed_store 2 [(''title'', PyStr ''a''), (''title'', Undef)]) 2
   \<and> is_dirty (field_writes flushed_store 2 [(''title'', PyStr ''b''), (''title'', PyStr ''a'')]) 2
   \<and> \<not> check_changed (infos (field_writes flushed_store 2 [(''title'', PyStr ''b''), (''title'', PyStr ''a'')]) 2)
   \<and> calls (snd (flush_one (db_rows [])
        (field_writes flushed_store 2 [(''title'', PyStr ''b''), (''title'', PyStr ''a'')]) 2))
       = calls flushed_store"
proof -
  let ?b = "set_value flushed_store 2 ''title'' (PyStr ''b'')"
  let ?ba = "field_writes flushed_store 2 [(''title'', PyStr ''b''), (''title'', PyStr ''a'')]"
  have h1: "oi_changed_hook (infos flushed_store 2)" "\<not> is_dirty flushed_store 2"
      "checkpointed_value (infos flushed_store 2) ''title'' = PyStr ''a''"
    by (simp_all add: flushed_store_eq is_dirty_def checkpointed_value_def)
  have a1: "is_dirty (object_changed flushed_store 2 ''title'' (PyStr ''a'') (PyStr ''b'')) 2"
    using field_write_marks_dirty[of "PyStr ''b''" flushed_store 2 "''title''" "PyStr ''a''"
            Undef 2 "[]" "db_rows []"]
    by simp
  have a2: "object_changed flushed_store 2 ''title'' (PyStr ''a'') Undef = flushed_store"
    using field_write_marks_dirty[of Undef flushed_store 2 "''title''" "PyStr ''a''"
            Undef 2 "[]" "db_rows []"]
    by simp
  have a3: "dirty (set_value flushed_store 2 ''title'' (PyStr ''a'')) = []"
    using field_write_marks_dirty[of Undef flushed_store 2 "''title''" Undef
            "PyStr ''a''" 2 "[]" "db_rows []"] h1(3)
    by (simp add: flushed_store_eq)
  have a4: "is_dirty ?b 2"
    using field_write_marks_dirty[of Undef flushed_store 2 "''title''" Undef
            "PyStr ''b''" 2 "[]" "db_rows []"] h1(1,3)
    by simp
  have a5: "is_dirty (set_value ?b 2 ''title'' (PyStr ''a'')) 2"
    using field_write_marks_dirty[of Undef ?b 2 "''title''" Undef
            "PyStr ''a''" 2 "[]" "db_rows []"] a4
    by simp
  have a6: "\<not> is_dirty (field_writes flushed_store 2 [(''title'', PyStr ''a''), (''title'', Undef)]) 2"
    using field_write_marks_dirty[of Undef flushed_store 2 "''title''" Undef
            Undef 2 "[(''title'', PyStr ''a''), (''title'', Undef)]" "db_rows []"] h1
    by simp
  have a7: "is_dirty ?ba 2"
    using field_write_marks_dirty[of Undef flushed_store 2 "''title''" Undef
            Undef 2 "[(''title'', PyStr ''b''), (''title'', PyStr ''a'')]" "db_rows []"] h1
    by simp
  have h4: "oi_pending (infos ?ba 2) = None" "\<not> check_changed (infos ?ba 2)"
      "calls ?ba = calls flushed_store"
    by (simp_all add: flushed_store_eq eval_write check_changed_def)
  have a8: "calls (snd (flush_one (db_rows []) ?ba 2)) = calls ?ba"
    using field_write_marks_dirty[of Undef ?ba 2 "''title''" Undef Undef 2 "[]" "db_rows []"] a7 h4
    by (simp add: is_dirty_def)
  show ?thesis using h1 a1 a2 a3 a4 a5 a6 a7 a8 h4 by simp
qed

section \<open>The order of a flush\<close>

lemma constraint_pairs_among:
  "set (constraint_pairs st) = constraints_among (predecessors (order st)) (set (dirty st))"
  by (force simp: constraint_pairs_def constraints_among_def predecessors_def)

lemma flush_one_summary:
  assumes "obj \<in> set (dirty st)" and "flush_one db st obj = (r, st')"
  shows "order st' = order st"
    and "set (dirty st') \<subseteq> set (dirty st)"
    and "set (dirty st) - {obj} \<subseteq> set (dirty st')"
    and "r = Return () \<Longrightarrow> flushed st' = flushed st @ [obj]"
    and "\<And>x. x \<noteq> obj \<Longrightarrow> infos st' x = infos st x"
proof -
  obtain st3 where t: "touches obj (flush_start st obj) st3"
    and r: "(\<exists>e. r = Raise e \<and> st' = st3) \<or> (r = Return () \<and> st' = emit_flushed st3 obj)"
    using flush_one_cases[OF assms] by blast
  have s: "order (flush_start st obj) = order st" "dirty (flush_start st obj) = removeAll obj (dirty st)"
     "flushed (flush_start st obj) = flushed st"
     "\<And>x. x \<noteq> obj \<Longrightarrow> infos (flush_start st obj) x = infos st x"
    by (simp_all add: flush_start_def upd_info_def set_clean_def)
  have e: "order st' = order st3" "dirty st' = dirty st3" "infos st' = infos st3"
    using r by (auto simp: emit_flushed_def)
  show "order st' = order st" using t s e by (simp add: touches_def)
  have d: "dirty st3 = removeAll obj (dirty st) \<or> dirty st3 = removeAll obj (dirty st) @ [obj]"
    using t s by (auto simp: touches_def)
  show "set (dirty st') \<subseteq> set (dirty st)" using d e assms(1) by auto
  show "set (dirty st) - {obj} \<subseteq> set (dirty st')" using d e by auto
  show "r = Return () \<Longrightarrow> flushed st' = flushed st @ [obj]"
    using r t s by (auto simp: emit_flushed_def touches_def)
  show "\<And>x. x \<noteq> obj \<Longrightarrow> infos st' x = infos st x"
    using t s e by (simp add: touches_def)
qed

lemma flush_loop_step:
  assumes "dirty st \<noteq> []"
    and "find (\<lambda>obj_id. \<forall>before \<in> set (preds obj_id). before \<notin> set (dirty st)) (dirty st) = Some obj"
    and "flush_one db st obj = (r1, st1)"
  shows "flush_loop preds db st = (case r1 of Raise e \<Rightarrow> (Raise e, st1) | Return u \<Rightarrow> flush_loop preds db st1)"
  using assms by (subst flush_loop.simps) (simp split: outcome.splits)

lemma flush_loop_none:
  assumes "dirty st \<noteq> []"
    and "find (\<lambda>obj_id. \<forall>before \<in> set (preds obj_id). before \<notin> set (dirty st)) (dirty st) = None"
  shows "flush_loop preds db st = (Raise (StoreError OrderingLoop), st)"
  using assms by (subst flush_loop.simps) simp

lemma flush_loop_empty: "dirty st = [] \<Longrightarrow> flush_loop preds db st = (Return (), st)"
  by (subst flush_loop.simps) simp

lemma flush_loop_trace:
  "flush_loop preds db st = (r, st') \<Longrightarrow>
   \<exists>new. flushed st' = flushed st @ new
      \<and> set new \<subseteq> set (dirty st)
      \<and> set (dirty st') \<subseteq> set (dirty st)
      \<and> order st' = order st
      \<and> (r = Return () \<longrightarrow> dirty st' = [] \<and> set (dirty st) \<subseteq> set new)
      \<and> (r = Raise (StoreError OrderingLoop) \<longrightarrow>
            dirty st' \<noteq> [] \<and> set (dirty st) \<subseteq> set new \<union> set (dirty st')
            \<and> (\<forall>a \<in> set (dirty st'). \<exists>b \<in> set (preds a). b \<in> set (dirty st')))
      \<and> (\<forall>a \<in> set new. \<forall>b \<in> set (preds a). b \<in> set (dirty st) \<longrightarrow>
            b \<in> set (takeWhile (\<lambda>x. x \<noteq> a) new))"
proof (induction preds db st arbitrary: r st' rule: flush_loop.induct)
  case (1 preds db st)
  let ?P = "\<lambda>obj_id. \<forall>before \<in> set (preds obj_id). before \<notin> set (dirty st)"
  show ?case
  proof (cases "dirty st = []")
    case True
    then have "r = Return ()" "st' = st" using 1(2) flush_loop_empty[OF True] by simp_all
    then show ?thesis using True by (intro exI[of _ "[]"]) simp
  next
    case False
    show ?thesis
    proof (cases "find ?P (dirty st)")
      case None
      then have rs: "r = Raise (StoreError OrderingLoop)" "st' = st"
        using 1(2) flush_loop_none[OF False None] by simp_all
      have "\<forall>a \<in> set (dirty st). \<exists>b \<in> set (preds a). b \<in> set (dirty st)"
        using None by (auto simp: find_None_iff)
      then show ?thesis using rs False by (intro exI[of _ "[]"]) simp
    next
      case (Some obj)
      then have obj: "obj \<in> set (dirty st)" and el: "?P obj"
        by (auto simp: find_Some_iff)
      obtain r1 st1 where f: "flush_one db st obj = (r1, st1)" by (cases "flush_one db st obj") auto
      note s = flush_one_summary[OF obj f]
      show ?thesis
      proof (cases r1)
        case (Raise e)
        then have rs: "r = Raise e" "st' = st1"
          using 1(2) flush_loop_step[OF False Some f] by simp_all
        have "e \<noteq> StoreError OrderingLoop"
          using raise_flush_one[of db st obj e st1] f Raise by (auto simp: flush_one_exn_def)
        moreover have "flushed st1 = flushed st"
        proof -
          obtain st3 where t: "touches obj (flush_start st obj) st3"
            and r: "(\<exists>e. r1 = Raise e \<and> st1 = st3) \<or> (r1 = Return () \<and> st1 = emit_flushed st3 obj)"
            using flush_one_cases[OF obj f] by blast
          then show ?thesis using Raise
            by (auto simp: touches_def flush_start_def upd_info_def set_clean_def)
        qed
        ultimately show ?thesis using rs s(1,2) by (intro exI[of _ "[]"]) simp
      next
        case (Return u)
        then have rec: "flush_loop preds db st1 = (r, st')"
          using 1(2) flush_loop_step[OF False Some f] by simp
        from 1(1)[OF False Some f[symmetric] Return rec]
        obtain new where n: "flushed st' = flushed st1 @ new"
          "set new \<subseteq> set (dirty st1)" "set (dirty st') \<subseteq> set (dirty st1)" "order st' = order st1"
          "r = Return () \<longrightarrow> dirty st' = [] \<and> set (dirty st1) \<subseteq> set new"
          "r = Raise (StoreError OrderingLoop) \<longrightarrow>
            dirty st' \<noteq> [] \<and> set (dirty st1) \<subseteq> set new \<union> set (dirty st')
            \<and> (\<forall>a \<in> set (dirty st'). \<exists>b \<in> set (preds a). b \<in> set (dirty st'))"
          "\<forall>a \<in> set new. \<forall>b \<in> set (preds a). b \<in> set (dirty st1) \<longrightarrow>
            b \<in> set (takeWhile (\<lambda>x. x \<noteq> a) new)"
          by blast
        have fl: "flushed st1 = flushed st @ [obj]" using s(4) Return by simp
        have ord: "\<forall>a \<in> set (obj # new). \<forall>b \<in> set (preds a). b \<in> set (dirty st) \<longrightarrow>
            b \<in> set (takeWhile (\<lambda>x. x \<noteq> a) (obj # new))"
        proof (intro ballI impI)
          fix a b assume a: "a \<in> set (obj # new)" and b: "b \<in> set (preds a)" and bd: "b \<in> set (dirty st)"
          show "b \<in> set (takeWhile (\<lambda>x. x \<noteq> a) (obj # new))"
          proof (cases "a = obj")
            case True
            then show ?thesis using el b bd by auto
          next
            case False
            then have an: "a \<in> set new" using a by simp
            show ?thesis
            proof (cases "b = obj")
              case True
              then show ?thesis using False by simp
            next
              case bo: False
              then have "b \<in> set (dirty st1)" using bd s(3) by auto
              then have "b \<in> set (takeWhile (\<lambda>x. x \<noteq> a) new)" using n(7) an b by blast
              then show ?thesis using False by simp
            qed
          qed
        qed
        show ?thesis
        proof (intro exI[of _ "obj # new"] conjI)
          show "flushed st' = flushed st @ obj # new" using n(1) fl by simp
          show "set (obj # new) \<subseteq> set (dirty st)" using n(2) s(2) obj by auto
          show "set (dirty st') \<subseteq> set (dirty st)" using n(3) s(2) by blast
          show "order st' = order st" using n(4) s(1) by simp
          show "r = Return () \<longrightarrow> dirty st' = [] \<and> set (dirty st) \<subseteq> set (obj # new)"
            using n(5) s(3) by auto
          show "r = Raise (StoreError OrderingLoop) \<longrightarrow>
            dirty st' \<noteq> [] \<and> set (dirty st) \<subseteq> set (obj # new) \<union> set (dirty st')
            \<and> (\<forall>a \<in> set (dirty st'). \<exists>b \<in> set (preds a). b \<in> set (dirty st'))"
            using n(6) s(3) by auto
          show "\<forall>a \<in> set (obj # new). \<forall>b \<in> set (preds a). b \<in> set (dirty st) \<longrightarrow>
            b \<in> set (takeWhile (\<lambda>x. x \<noteq> a) (obj # new))"
            by (rule ord)
        qed
      qed
    qed
  qed
qed

lemma constraints_among_mono: "D \<subseteq> D' \<Longrightarrow> constraints_among preds D \<subseteq> constraints_among preds D'"
  by (auto simp: constraints_among_def)

lemma constraints_among_finite: "finite D \<Longrightarrow> finite (constraints_among preds D)"
  by (rule finite_subset[of _ "D \<times> D"]) (auto simp: constraints_among_def)

lemma acyclic_has_eligible:
  assumes "acyclic (constraints_among preds (set ds))" and "ds \<noteq> []"
  shows "find (\<lambda>obj_id. \<forall>before \<in> set (preds obj_id). before \<notin> set ds) ds \<noteq> None"
proof -
  have "wf (constraints_among preds (set ds))"
    using assms(1) constraints_among_finite by (simp add: finite_acyclic_wf)
  moreover obtain x where "x \<in> set ds" using assms(2) by (cases ds) auto
  ultimately obtain z where z: "z \<in> set ds"
      and m: "\<And>y. (y, z) \<in> constraints_among preds (set ds) \<Longrightarrow> y \<notin> set ds"
    by (rule wfE_min) blast
  have "\<forall>before \<in> set (preds z). before \<notin> set ds"
    using m z by (auto simp: constraints_among_def)
  then show ?thesis using z by (auto simp: find_None_iff)
qed

lemma acyclic_no_ordering_loop:
  "flush_loop preds db st = (r, st') \<Longrightarrow> acyclic (constraints_among preds (set (dirty st))) \<Longrightarrow>
   r \<noteq> Raise (StoreError OrderingLoop)"
proof (induction preds db st arbitrary: r st' rule: flush_loop.induct)
  case (1 preds db st)
  let ?P = "\<lambda>obj_id. \<forall>before \<in> set (preds obj_id). before \<notin> set (dirty st)"
  show ?case
  proof (cases "dirty st = []")
    case True
    then show ?thesis using 1(2) flush_loop_empty[OF True] by auto
  next
    case False
    then obtain obj where Some: "find ?P (dirty st) = Some obj"
      using acyclic_has_eligible[OF 1(3) False] by auto
    then have obj: "obj \<in> set (dirty st)" by (auto simp: find_Some_iff)
    obtain r1 st1 where f: "flush_one db st obj = (r1, st1)" by (cases "flush_one db st obj") auto
    note s = flush_one_summary[OF obj f]
    show ?thesis
    proof (cases r1)
      case (Raise e)
      then have "r = Raise e" using 1(2) flush_loop_step[OF False Some f] by simp
      moreover have "e \<noteq> StoreError OrderingLoop"
        using raise_flush_one[of db st obj e st1] f Raise by (auto simp: flush_one_exn_def)
      ultimately show ?thesis by simp
    next
      case (Return u)
      then have rec: "flush_loop preds db st1 = (r, st')"
        using 1(2) flush_loop_step[OF False Some f] by simp
      have "acyclic (constraints_among preds (set (dirty st1)))"
        using 1(3) constraints_among_mono[OF s(2)] acyclic_subset by blast
      from 1(1)[OF False Some f[symmetric] Return rec this] show ?thesis .
    qed
  qed
qed

lemma blocked_never_returns:
  "flush_loop preds db st = (r, st') \<Longrightarrow> Q \<noteq> {} \<Longrightarrow> Q \<subseteq> set (dirty st) \<Longrightarrow>
   (\<forall>z \<in> Q. \<exists>y \<in> Q. y \<in> set (preds z)) \<Longrightarrow>
   r \<noteq> Return () \<and> Q \<subseteq> set (dirty st') \<and> Q \<inter> set (drop (length (flushed st)) (flushed st')) = {}"
proof (induction preds db st arbitrary: r st' rule: flush_loop.induct)
  case (1 preds db st)
  let ?P = "\<lambda>obj_id. \<forall>before \<in> set (preds obj_id). before \<notin> set (dirty st)"
  have ne: "dirty st \<noteq> []" using 1(3,4) by auto
  show ?case
  proof (cases "find ?P (dirty st)")
    case None
    then show ?thesis using 1(2,4) flush_loop_none[OF ne None] by auto
  next
    case (Some obj)
    then have obj: "obj \<in> set (dirty st)" and el: "?P obj"
      by (auto simp: find_Some_iff)
    have nq: "obj \<notin> Q" using el 1(4,5) by blast
    obtain r1 st1 where f: "flush_one db st obj = (r1, st1)" by (cases "flush_one db st obj") auto
    note s = flush_one_summary[OF obj f]
    have q1: "Q \<subseteq> set (dirty st1)" using nq 1(4) s(3) by blast
    show ?thesis
    proof (cases r1)
      case (Raise e)
      then have rs: "r = Raise e" "st' = st1" using 1(2) flush_loop_step[OF ne Some f] by simp_all
      have "flushed st1 = flushed st"
      proof -
        obtain st3 where t: "touches obj (flush_start st obj) st3"
          and r: "(\<exists>e. r1 = Raise e \<and> st1 = st3) \<or> (r1 = Return () \<and> st1 = emit_flushed st3 obj)"
          using flush_one_cases[OF obj f] by blast
        then show ?thesis using Raise
          by (auto simp: touches_def flush_start_def upd_info_def set_clean_def)
      qed
      then show ?thesis using rs q1 by simp
    next
      case (Return u)
      then have rec: "flush_loop preds db st1 = (r, st')"
        using 1(2) flush_loop_step[OF ne Some f] by simp
      from 1(1)[OF ne Some f[symmetric] Return rec 1(3) q1 1(5)]
      have ih: "r \<noteq> Return ()" "Q \<subseteq> set (dirty st')"
        "Q \<inter> set (drop (length (flushed st1)) (flushed st')) = {}" by auto
      have fl: "flushed st1 = flushed st @ [obj]" using s(4) Return by simp
      obtain new where n: "flushed st' = flushed st1 @ new"
        using flush_loop_trace[OF rec] by blast
      have "drop (length (flushed st)) (flushed st') = obj # new"
        using n fl by simp
      moreover have "drop (length (flushed st1)) (flushed st') = new" using n by simp
      ultimately show ?thesis using ih nq by auto
    qed
  qed
qed


lemma on_cycle_blocked:
  fixes R :: "(nat \<times> nat) set"
  assumes "z \<in> {x. (x, x) \<in> R\<^sup>+}"
  shows "\<exists>y \<in> {x. (x, x) \<in> R\<^sup>+}. (y, z) \<in> R"
proof -
  have "(z, z) \<in> R\<^sup>+" using assms by simp
  then obtain y where y: "(z, y) \<in> R\<^sup>*" "(y, z) \<in> R" using tranclD2 by metis
  then have "(y, y) \<in> R\<^sup>+" by (rule_tac rtrancl_into_trancl2)
  then show ?thesis using y by blast
qed

lemma cycle_never_flushed:
  assumes "flush_loop preds db st = (r, st')"
    and "(x, x) \<in> (constraints_among preds (set (dirty st)))\<^sup>+"
  shows "r \<noteq> Return () \<and> x \<in> set (dirty st') \<and> x \<notin> set (drop (length (flushed st)) (flushed st'))"
proof -
  let ?R = "constraints_among preds (set (dirty st))"
  let ?Q = "{x. (x, x) \<in> ?R\<^sup>+}"
  have 1: "?Q \<noteq> {}" using assms(2) by blast
  have 3: "\<forall>z \<in> ?Q. \<exists>y \<in> ?Q. y \<in> set (preds z)"
  proof
    fix z assume "z \<in> ?Q"
    from on_cycle_blocked[OF this] obtain y where "y \<in> ?Q" "(y, z) \<in> ?R" by blast
    then show "\<exists>y \<in> ?Q. y \<in> set (preds z)" by (auto simp: constraints_among_def)
  qed
  have 2: "?Q \<subseteq> set (dirty st)"
  proof
    fix z assume "z \<in> ?Q"
    from on_cycle_blocked[OF this] obtain y where "(y, z) \<in> ?R" by blast
    then show "z \<in> set (dirty st)" by (simp add: constraints_among_def)
  qed
  from blocked_never_returns[OF assms(1) 1 2 3] show ?thesis using assms(2) by blast
qed

text \<open>
  C2 (amended). For every call of \<open>flush\<close>: the objects it flushes are flushed in
  an order that respects the constraints (for every pair with a count above zero among the
  dirty objects, when the "after" object is flushed the "before" object was flushed
  earlier). If the constraints among the dirty objects are acyclic, the flush does not
  raise the ordering error: it returns, unless flushing one of the objects itself fails;
  when it returns, every dirty object has been flushed and the dirty set is empty. If
  they are cyclic, the flush raises and the order table is kept; the objects on a cycle
  are not flushed and stay dirty, but objects that do not wait for a cycle may have been
  flushed before the error. When the ordering error is raised, every object left dirty has
  a dirty predecessor.
\<close>

theorem flush_order_topological:
  assumes "flush db st = (r, st')"
  shows "(acyclic (set (constraint_pairs st)) \<longrightarrow> r = Return () \<or> (\<exists>e. r = Raise e \<and> flush_one_exn e))
   \<and> (r = Return () \<longrightarrow> dirty st' = [] \<and> set (flushed_by st st') = set (dirty st))
   \<and> (\<forall>b a. (b, a) \<in> set (constraint_pairs st) \<and> a \<in> set (flushed_by st st')
         \<longrightarrow> b \<in> set (takeWhile (\<lambda>x. x \<noteq> a) (flushed_by st st')))
   \<and> (\<not> acyclic (set (constraint_pairs st)) \<longrightarrow>
         (r = Raise (StoreError OrderingLoop) \<or> (\<exists>e. r = Raise e \<and> flush_one_exn e))
         \<and> order st' = order st)
   \<and> (\<forall>x. (x, x) \<in> (set (constraint_pairs st))\<^sup>+
         \<longrightarrow> x \<in> set (dirty st') \<and> x \<notin> set (flushed_by st st'))
   \<and> (r = Raise (StoreError OrderingLoop) \<longrightarrow>
         dirty st' \<noteq> [] \<and> set (dirty st) \<subseteq> set (flushed_by st st') \<union> set (dirty st')
         \<and> (\<forall>a \<in> set (dirty st'). \<exists>b \<in> set (predecessors (order st) a). b \<in> set (dirty st'))
         \<and> order st' = order st)"
proof -
  let ?preds = "predecessors (order st)"
  obtain st1 where l: "flush_loop ?preds db st = (r, st1)"
    and st': "st' = (case r of Return u \<Rightarrow> st1\<lparr>order := []\<rparr> | Raise e \<Rightarrow> st1)"
    using assms by (auto simp: flush_def split: prod.splits outcome.splits)
  have same: "dirty st' = dirty st1" "flushed st' = flushed st1"
    using st' by (cases r; simp)+
  have ord: "\<And>e. r = Raise e \<Longrightarrow> order st' = order st1"
    using st' by simp
  have R: "set (constraint_pairs st) = constraints_among ?preds (set (dirty st))"
    by (rule constraint_pairs_among)
  obtain new where n: "flushed st1 = flushed st @ new"
      "set new \<subseteq> set (dirty st)" "set (dirty st1) \<subseteq> set (dirty st)" "order st1 = order st"
      "r = Return () \<longrightarrow> dirty st1 = [] \<and> set (dirty st) \<subseteq> set new"
      "r = Raise (StoreError OrderingLoop) \<longrightarrow>
            dirty st1 \<noteq> [] \<and> set (dirty st) \<subseteq> set new \<union> set (dirty st1)
            \<and> (\<forall>a \<in> set (dirty st1). \<exists>b \<in> set (?preds a). b \<in> set (dirty st1))"
      "\<forall>a \<in> set new. \<forall>b \<in> set (?preds a). b \<in> set (dirty st) \<longrightarrow>
            b \<in> set (takeWhile (\<lambda>x. x \<noteq> a) new)"
    using flush_loop_trace[OF l] by blast
  have fb: "flushed_by st st' = new"
    using n(1) same by (simp add: flushed_by_def)
  have A: "acyclic (set (constraint_pairs st)) \<longrightarrow> r = Return () \<or> (\<exists>e. r = Raise e \<and> flush_one_exn e)"
  proof
    assume "acyclic (set (constraint_pairs st))"
    then have no: "r \<noteq> Raise (StoreError OrderingLoop)"
      using acyclic_no_ordering_loop[OF l] R by simp
    show "r = Return () \<or> (\<exists>e. r = Raise e \<and> flush_one_exn e)"
    proof (cases r)
      case (Return u)
      then show ?thesis by simp
    next
      case (Raise e)
      then show ?thesis using raise_flush_loop[of ?preds db st e st1] l no by auto
    qed
  qed
  have B: "r = Return () \<longrightarrow> dirty st' = [] \<and> set (flushed_by st st') = set (dirty st)"
    using n(2,5) same fb by auto
  have C: "\<forall>b a. (b, a) \<in> set (constraint_pairs st) \<and> a \<in> set (flushed_by st st')
         \<longrightarrow> b \<in> set (takeWhile (\<lambda>x. x \<noteq> a) (flushed_by st st'))"
    using n(7) fb R by (auto simp: constraints_among_def)
  have E: "\<forall>x. (x, x) \<in> (set (constraint_pairs st))\<^sup>+
         \<longrightarrow> x \<in> set (dirty st') \<and> x \<notin> set (flushed_by st st')"
    using cycle_never_flushed[OF l] R same by (simp add: flushed_by_def)
  have D: "\<not> acyclic (set (constraint_pairs st)) \<longrightarrow>
         (r = Raise (StoreError OrderingLoop) \<or> (\<exists>e. r = Raise e \<and> flush_one_exn e))
         \<and> order st' = order st"
  proof
    assume "\<not> acyclic (set (constraint_pairs st))"
    then obtain x where "(x, x) \<in> (constraints_among ?preds (set (dirty st)))\<^sup>+"
      using R by (auto simp: acyclic_def)
    then have "r \<noteq> Return ()" using cycle_never_flushed[OF l] by blast
    then obtain e where e: "r = Raise e" by (cases r) auto
    then have "e = StoreError OrderingLoop \<or> flush_one_exn e"
      using raise_flush_loop[of ?preds db st e st1] l by simp
    then show "(r = Raise (StoreError OrderingLoop) \<or> (\<exists>e. r = Raise e \<and> flush_one_exn e))
         \<and> order st' = order st"
      using e ord n(4) by auto
  qed
  have F: "r = Raise (StoreError OrderingLoop) \<longrightarrow>
         dirty st' \<noteq> [] \<and> set (dirty st) \<subseteq> set (flushed_by st st') \<union> set (dirty st')
         \<and> (\<forall>a \<in> set (dirty st'). \<exists>b \<in> set (predecessors (order st) a). b \<in> set (dirty st'))
         \<and> order st' = order st"
    using n(4,6) same fb ord by auto
  show ?thesis using A B C D E F by blast
qed

lemmas eval_flush = eval_store ordered_store_def cyclic_store_def flush_changed_def check_changed_def
  constraint_pairs_def flushed_by_def

lemma ordered_flush:
  "fst (flush (db_rows []) ordered_store) = Return ()
   \<and> flushed (snd (flush (db_rows []) ordered_store)) = [1, 2]
   \<and> dirty (snd (flush (db_rows []) ordered_store)) = []
   \<and> calls (snd (flush (db_rows []) ordered_store))
       = [Execute (Insert [''id'', ''title''] [PyInt 1, PyStr ''a''] ''foo''),
          Execute (Insert [''id'', ''title''] [PyInt 2, PyStr ''b''] ''foo'')]"
  by (simp add: eval_flush)

lemma cyclic_flush:
  "fst (flush (db_rows []) cyclic_store) = Raise (StoreError OrderingLoop)
   \<and> flushed (snd (flush (db_rows []) cyclic_store)) = [3]
   \<and> dirty (snd (flush (db_rows []) cyclic_store)) = [1, 2]
   \<and> order (snd (flush (db_rows []) cyclic_store)) = [((1, 2), 1), ((2, 1), 1)]
   \<and> calls (snd (flush (db_rows []) cyclic_store))
       = [Execute (Insert [''id'', ''title''] [PyInt 7, PyStr ''c''] ''foo'')]"
  by (simp add: eval_flush)

lemma ordered_pairs: "constraint_pairs ordered_store = [(1, 2)]"
  by (simp add: eval_flush)

lemma cyclic_pairs: "constraint_pairs cyclic_store = [(1, 2), (2, 1)]"
  by (simp add: eval_flush)

lemma ordered_acyclic: "acyclic (set (constraint_pairs ordered_store))"
  by (simp add: ordered_pairs wf_acyclic)

lemma cyclic_cycle: "(1, 1) \<in> (set (constraint_pairs cyclic_store))\<^sup>+"
proof -
  have "(1::nat, 2::nat) \<in> set (constraint_pairs cyclic_store)"
       "(2::nat, 1::nat) \<in> set (constraint_pairs cyclic_store)"
    by (simp_all add: cyclic_pairs)
  then show ?thesis by (rule trancl_into_trancl[OF r_into_trancl])
qed

text \<open>
  The claim as stated fails in its last part: with a cycle between objects 1 and 2 and an
  unconstrained object 3, the flush raises the ordering error after it has inserted
  object 3.
\<close>

theorem cyclic_flush_counterexample:
  "\<not> acyclic (set (constraint_pairs cyclic_store))
   \<and> dirty cyclic_store = [3, 1, 2]
   \<and> fst (flush (db_rows []) cyclic_store) = Raise (StoreError OrderingLoop)
   \<and> flushed_by cyclic_store (snd (flush (db_rows []) cyclic_store)) = [3]
   \<and> dirty (snd (flush (db_rows []) cyclic_store)) = [1, 2]
   \<and> calls (snd (flush (db_rows []) cyclic_store))
       = [Execute (Insert [''id'', ''title''] [PyInt 7, PyStr ''c''] ''foo'')]"
proof -
  have "\<not> acyclic (set (constraint_pairs cyclic_store))"
    using cyclic_cycle by (auto simp: acyclic_def)
  moreover have "flushed cyclic_store = []" "dirty cyclic_store = [3, 1, 2]"
    by (simp_all add: cyclic_store_def store0_def)
  ultimately show ?thesis using cyclic_flush by (simp add: flushed_by_def)
qed

theorem flush_order_topological_witness:
  "acyclic (set (constraint_pairs ordered_store))
   \<and> dirty ordered_store = [2, 1]
   \<and> (1, 2) \<in> set (constraint_pairs ordered_store)
   \<and> fst (flush (db_rows []) ordered_store) = Return ()
   \<and> dirty (snd (flush (db_rows []) ordered_store)) = []
   \<and> flushed_by ordered_store (snd (flush (db_rows []) ordered_store)) = [1, 2]
   \<and> 1 \<in> set (takeWhile (\<lambda>x. x \<noteq> 2) (flushed_by ordered_store (snd (flush (db_rows []) ordered_store))))
   \<and> \<not> acyclic (set (constraint_pairs cyclic_store))
   \<and> (1, 1) \<in> (set (constraint_pairs cyclic_store))\<^sup>+
   \<and> fst (flush (db_rows []) cyclic_store) = Raise (StoreError OrderingLoop)
   \<and> 1 \<in> set (dirty (snd (flush (db_rows []) cyclic_store)))
   \<and> 1 \<notin> set (flushed_by cyclic_store (snd (flush (db_rows []) cyclic_store)))
   \<and> order (snd (flush (db_rows []) cyclic_store)) = order cyclic_store"
proof -
  let ?a = "snd (flush (db_rows []) ordered_store)"
  let ?c = "snd (flush (db_rows []) cyclic_store)"
  have fa: "flush (db_rows []) ordered_store = (Return (), ?a)"
    using ordered_flush by (cases "flush (db_rows []) ordered_store") simp
  have fc: "flush (db_rows []) cyclic_store = (Raise (StoreError OrderingLoop), ?c)"
    using cyclic_flush by (cases "flush (db_rows []) cyclic_store") simp
  have h1: "acyclic (set (constraint_pairs ordered_store))" by (rule ordered_acyclic)
  have h2: "(1, 2) \<in> set (constraint_pairs ordered_store)" by (simp add: ordered_pairs)
  have h3: "flushed_by ordered_store ?a = [1, 2]"
    using ordered_flush by (simp add: flushed_by_def ordered_store_def store0_def)
  have h4: "(1, 1) \<in> (set (constraint_pairs cyclic_store))\<^sup>+" by (rule cyclic_cycle)
  have h5: "\<not> acyclic (set (constraint_pairs cyclic_store))"
    using cyclic_cycle by (auto simp: acyclic_def)
  have h6: "dirty ordered_store = [2, 1]" by (simp add: ordered_store_def store0_def)
  note A = flush_order_topological[OF fa]
  note B = flush_order_topological[OF fc]
  have a1: "dirty ?a = []" using A by simp
  have a2: "1 \<in> set (takeWhile (\<lambda>x. x \<noteq> 2) (flushed_by ordered_store ?a))"
    using A h2 h3 by simp
  have b1: "1 \<in> set (dirty ?c)" "1 \<notin> set (flushed_by cyclic_store ?c)"
    using B h4 by blast+
  have b2: "order ?c = order cyclic_store" using B by simp
  have r: "fst (flush (db_rows []) ordered_store) = Return ()"
      "fst (flush (db_rows []) cyclic_store) = Raise (StoreError OrderingLoop)"
    using ordered_flush cyclic_flush by simp_all
  show ?thesis using r h1 h2 h3 h4 h5 h6 a1 a2 b1 b2 by simp
qed

section \<open>Ghosts and the identity cache\<close>

lemma flush_one_frame:
  assumes "obj \<in> set (dirty st)" and "flush_one db st obj = (r, st')" and "x \<noteq> obj"
  shows "infos st' x = infos st x"
    and "x \<in> set (ghosts st') \<longleftrightarrow> x \<in> set (ghosts st)"
    and "map_of (cache st') key = Some x \<Longrightarrow> map_of (cache st) key = Some x"
    and "next_obj st' = next_obj st"
proof -
  obtain st3 where t: "touches obj (flush_start st obj) st3"
    and r: "(\<exists>e. r = Raise e \<and> st' = st3) \<or> (r = Return () \<and> st' = emit_flushed st3 obj)"
    using flush_one_cases[OF assms(1,2)] by blast
  have s: "infos (flush_start st obj) x = infos st x" "ghosts (flush_start st obj) = ghosts st"
     "cache (flush_start st obj) = cache st" "next_obj (flush_start st obj) = next_obj st"
    using assms(3) by (simp_all add: flush_start_def upd_info_def set_clean_def)
  have e: "infos st' = infos st3" "ghosts st' = ghosts st3" "cache st' = cache st3"
      "next_obj st' = next_obj st3"
    using r by (auto simp: emit_flushed_def)
  show "infos st' x = infos st x" using t s e assms(3) by (simp add: touches_def)
  show "x \<in> set (ghosts st') \<longleftrightarrow> x \<in> set (ghosts st)" using t s e assms(3) by (simp add: touches_def)
  show "map_of (cache st') key = Some x \<Longrightarrow> map_of (cache st) key = Some x"
    using t s e assms(3) unfolding touches_def by metis
  show "next_obj st' = next_obj st" using t s e by (simp add: touches_def)
qed

lemma next_obj_flush_one: "flush_one db st obj = (r, st') \<Longrightarrow> next_obj st' = next_obj st"
proof (cases "obj \<in> set (dirty st)")
  case True
  assume f: "flush_one db st obj = (r, st')"
  obtain st3 where t: "touches obj (flush_start st obj) st3"
    and r: "(\<exists>e. r = Raise e \<and> st' = st3) \<or> (r = Return () \<and> st' = emit_flushed st3 obj)"
    using flush_one_cases[OF True f] by blast
  then show ?thesis
    by (auto simp: touches_def emit_flushed_def flush_start_def upd_info_def set_clean_def)
next
  case False
  assume "flush_one db st obj = (r, st')"
  then show ?thesis using False by (simp add: flush_one_def)
qed

lemma flush_loop_frame:
  "flush_loop preds db st = (r, st') \<Longrightarrow> x \<notin> set (dirty st) \<Longrightarrow>
   infos st' x = infos st x \<and> (x \<in> set (ghosts st') \<longleftrightarrow> x \<in> set (ghosts st))
   \<and> (\<forall>key. map_of (cache st') key = Some x \<longrightarrow> map_of (cache st) key = Some x)
   \<and> x \<notin> set (dirty st')"
proof (induction preds db st arbitrary: r st' rule: flush_loop.induct)
  case (1 preds db st)
  let ?P = "\<lambda>obj_id. \<forall>before \<in> set (preds obj_id). before \<notin> set (dirty st)"
  show ?case
  proof (cases "dirty st = []")
    case True
    then show ?thesis using 1(2,3) flush_loop_empty[OF True] by auto
  next
    case False
    show ?thesis
    proof (cases "find ?P (dirty st)")
      case None
      then show ?thesis using 1(2,3) flush_loop_none[OF False None] by auto
    next
      case (Some obj)
      then have obj: "obj \<in> set (dirty st)" by (auto simp: find_Some_iff)
      then have ne: "x \<noteq> obj" using 1(3) by auto
      obtain r1 st1 where f: "flush_one db st obj = (r1, st1)" by (cases "flush_one db st obj") auto
      note fr = flush_one_frame[OF obj f ne]
      note s = flush_one_summary[OF obj f]
      have x1: "x \<notin> set (dirty st1)" using s(2) 1(3) by auto
      show ?thesis
      proof (cases r1)
        case (Raise e)
        then have "st' = st1" using 1(2) flush_loop_step[OF False Some f] by simp
        then show ?thesis using fr x1 by auto
      next
        case (Return u)
        then have rec: "flush_loop preds db st1 = (r, st')"
          using 1(2) flush_loop_step[OF False Some f] by simp
        from 1(1)[OF False Some f[symmetric] Return rec x1] show ?thesis using fr by auto
      qed
    qed
  qed
qed

lemma next_obj_flush_loop: "flush_loop preds db st = (r, st') \<Longrightarrow> next_obj st' = next_obj st"
proof (induction preds db st arbitrary: r st' rule: flush_loop.induct)
  case (1 preds db st)
  let ?P = "\<lambda>obj_id. \<forall>before \<in> set (preds obj_id). before \<notin> set (dirty st)"
  show ?case
  proof (cases "dirty st = []")
    case True
    then show ?thesis using 1(2) flush_loop_empty[OF True] by auto
  next
    case False
    show ?thesis
    proof (cases "find ?P (dirty st)")
      case None
      then show ?thesis using 1(2) flush_loop_none[OF False None] by auto
    next
      case (Some obj)
      obtain r1 st1 where f: "flush_one db st obj = (r1, st1)" by (cases "flush_one db st obj") auto
      show ?thesis
      proof (cases r1)
        case (Raise e)
        then have "st' = st1" using 1(2) flush_loop_step[OF False Some f] by simp
        then show ?thesis using next_obj_flush_one[OF f] by simp
      next
        case (Return u)
        then have rec: "flush_loop preds db st1 = (r, st')"
          using 1(2) flush_loop_step[OF False Some f] by simp
        from 1(1)[OF False Some f[symmetric] Return rec] show ?thesis
          using next_obj_flush_one[OF f] by simp
      qed
    qed
  qed
qed

lemma flush_one_pending_remove:
  assumes "obj \<in> set (dirty st)" and "oi_pending (infos st obj) = Some PENDING_REMOVE"
    and "flush_one db st obj = (Return (), st')" and "cached_only_under_key st obj"
  shows "obj \<in> set (ghosts st')" and "oi_primary_values (infos st' obj) = None"
    and "not_cached st' obj" and "obj \<notin> set (dirty st')"
    and "\<not> oi_changed_hook (infos st' obj)"
proof -
  let ?st2 = "upd_info (set_clean st obj) obj (\<lambda>i. i\<lparr>oi_pending := None\<rparr>)"
  have f: "flush_one db st obj = (case flush_pending_remove db ?st2 obj of
              (Raise e, st3) \<Rightarrow> (Raise e, st3)
            | (Return _, st3) \<Rightarrow> (Return (), emit_flushed st3 obj))"
    using assms(1,2) by (simp add: flush_one_def Let_def set_clean_def)
  then obtain st3 where r: "flush_pending_remove db ?st2 obj = (Return (), st3)"
     and st': "st' = emit_flushed st3 obj"
    using assms(3) by (auto split: prod.splits outcome.splits)
  obtain k where k: "oi_primary_values (infos st obj) = Some k"
    using r by (auto simp: flush_pending_remove_def Let_def upd_info_def set_clean_def split: option.splits)
  let ?e = "Delete (CompareColumns (primary_key (oi_cls (infos st obj))) k) (table (oi_cls (infos st obj)))"
  obtain rows st4 where ex: "execute db ?st2 ?e = (Return rows, st4)"
    and rc: "remove_from_cache (set_ghost (disable_change_notification st4 obj) obj) obj = (Return (), st3)"
    using r k by (auto simp: flush_pending_remove_def Let_def upd_info_def set_clean_def
                     split: option.splits elim!: bind_cases)
  have st4: "st4 = ?st2\<lparr>calls := calls ?st2 @ [Execute ?e]\<rparr>"
    using ex by (auto simp: execute_def split: reply.splits)
  have st3: "st3 = upd_info ((set_ghost (disable_change_notification st4 obj) obj)
                   \<lparr>cache := AList.delete (oi_cls (infos st obj), k) (cache st)\<rparr>)
                 obj (\<lambda>i. i\<lparr>oi_primary_values := None\<rparr>)"
    using rc k unfolding st4
    by (auto simp: remove_from_cache_def Let_def set_ghost_def disable_change_notification_def
          upd_info_def set_clean_def split: if_splits)
  show "obj \<in> set (ghosts st')"
    unfolding st' st3 st4
    by (simp add: emit_flushed_def upd_info_def set_ghost_def disable_change_notification_def set_clean_def)
  show "oi_primary_values (infos st' obj) = None"
    unfolding st' st3 by (simp add: emit_flushed_def upd_info_def)
  show "\<not> oi_changed_hook (infos st' obj)"
    unfolding st' st3 st4
    by (simp add: emit_flushed_def upd_info_def set_ghost_def disable_change_notification_def set_clean_def)
  show "obj \<notin> set (dirty st')"
    unfolding st' st3 st4
    by (simp add: emit_flushed_def upd_info_def set_ghost_def disable_change_notification_def set_clean_def)
  have c: "cache st' = AList.delete (oi_cls (infos st obj), k) (cache st)"
    unfolding st' st3 by (simp add: emit_flushed_def upd_info_def)
  show "not_cached st' obj"
    unfolding not_cached_def
  proof
    fix key
    show "map_of (cache st') key \<noteq> Some obj"
    proof
      assume a: "map_of (cache st') key = Some obj"
      then have "key \<noteq> (oi_cls (infos st obj), k)" and "map_of (cache st) key = Some obj"
        unfolding c by (auto simp: delete_conv' split: if_splits)
      then show False using assms(4) k by (cases key) (auto simp: cached_only_under_key_def)
    qed
  qed
qed

lemma flush_loop_pending_remove:
  "flush_loop preds db st = (Return (), st') \<Longrightarrow> obj \<in> set (dirty st) \<Longrightarrow>
   oi_pending (infos st obj) = Some PENDING_REMOVE \<Longrightarrow> cached_only_under_key st obj \<Longrightarrow>
   obj \<in> set (ghosts st') \<and> oi_primary_values (infos st' obj) = None \<and> not_cached st' obj
   \<and> \<not> oi_changed_hook (infos st' obj)"
proof (induction preds db st arbitrary: st' rule: flush_loop.induct)
  case (1 preds db st)
  let ?P = "\<lambda>obj_id. \<forall>before \<in> set (preds obj_id). before \<notin> set (dirty st)"
  have ne: "dirty st \<noteq> []" using 1(3) by auto
  show ?case
  proof (cases "find ?P (dirty st)")
    case None
    then show ?thesis using 1(2) flush_loop_none[OF ne None] by simp
  next
    case (Some z)
    then have z: "z \<in> set (dirty st)" by (auto simp: find_Some_iff)
    obtain r1 st1 where f: "flush_one db st z = (r1, st1)" by (cases "flush_one db st z") auto
    have r1: "r1 = Return ()" and rec: "flush_loop preds db st1 = (Return (), st')"
      using 1(2) flush_loop_step[OF ne Some f] by (cases r1; simp)+
    show ?thesis
    proof (cases "z = obj")
      case True
      note p = flush_one_pending_remove[OF 1(3,4) f[unfolded True r1] 1(5)]
      have "infos st' obj = infos st1 obj" "obj \<in> set (ghosts st') \<longleftrightarrow> obj \<in> set (ghosts st1)"
         "\<forall>key. map_of (cache st') key = Some obj \<longrightarrow> map_of (cache st1) key = Some obj"
        using flush_loop_frame[OF rec p(4)] by auto
      then show ?thesis using p by (auto simp: not_cached_def)
    next
      case False
      then have no: "obj \<noteq> z" by simp
      note fr = flush_one_frame[OF z f no]
      note s = flush_one_summary[OF z f]
      have d1: "obj \<in> set (dirty st1)" using s(3) 1(3) False by auto
      have p1: "oi_pending (infos st1 obj) = Some PENDING_REMOVE" using fr(1) 1(4) by simp
      have c1: "cached_only_under_key st1 obj"
        using 1(5) fr(1,3) unfolding cached_only_under_key_def by metis
      from 1(1)[OF ne Some f[symmetric] r1 rec d1 p1 c1] show ?thesis .
    qed
  qed
qed

lemma load_object_fresh:
  assumes "load_object st cls vals = (Return x, st')" and "not_cached st obj" and "obj < next_obj st"
  shows "x \<noteq> obj"
  using assms unfolding load_object_def Let_def not_cached_def
  by (auto split: if_splits option.splits elim!: bind_cases)

lemma get_never_returns_uncached:
  assumes "not_cached st obj" and "obj \<notin> set (dirty st)" and "obj < next_obj st"
  shows "fst (get db st cls key) \<noteq> Return (Some obj)"
proof
  assume a: "fst (get db st cls key) = Return (Some obj)"
  then obtain st' where g: "get db st cls key = (Return (Some obj), st')"
    by (cases "get db st cls key") simp
  obtain u st1 where fl: "flush db st = (Return u, st1)"
    using g unfolding get_def by (auto split: prod.splits outcome.splits)
  obtain st0 where l: "flush_loop (predecessors (order st)) db st = (Return (), st0)"
    and st1: "st1 = st0\<lparr>order := []\<rparr>"
    using fl by (auto simp: flush_def split: prod.splits outcome.splits)
  have nc0: "not_cached st0 obj"
    using flush_loop_frame[OF l assms(2)] assms(1) by (auto simp: not_cached_def)
  then have nc1: "not_cached st1 obj" by (simp add: st1 not_cached_def)
  have n1: "obj < next_obj st1" using next_obj_flush_loop[OF l] assms(3) by (simp add: st1)
  let ?k = "key_tuple key"
  have len: "length ?k = length (primary_key cls)"
    using g fl unfolding get_def Let_def by (auto split: if_splits)
  have miss: "map_of (cache st1) (cls, ?k) = None"
    using g fl len nc1 unfolding get_def Let_def not_cached_def
    by (cases "map_of (cache st1) (cls, ?k)") auto
  let ?e = "Select (columns cls) (CompareColumns (primary_key cls) ?k) (Some (table cls)) (Some 1)"
  obtain rows st2 where ex: "execute db st1 ?e = (Return rows, st2)"
    and rest: "(case get_one rows of None \<Rightarrow> (Return None, st2)
               | Some vals \<Rightarrow> (case load_object st2 cls vals of
                                  (Raise e, st3) \<Rightarrow> (Raise e, st3)
                                | (Return x, st3) \<Rightarrow> (Return (Some x), st3))) = (Return (Some obj), st')"
    using g fl len miss unfolding get_def Let_def
    by (auto elim!: bind_cases)
  have st2: "st2 = st1\<lparr>calls := calls st1 @ [Execute ?e]\<rparr>"
    using ex by (auto simp: execute_def split: reply.splits)
  have nc2: "not_cached st2 obj" "obj < next_obj st2"
    using nc1 n1 by (simp_all add: st2 not_cached_def)
  obtain vals st3 where lo: "load_object st2 cls vals = (Return obj, st3)"
    using rest by (auto split: option.splits prod.splits outcome.splits)
  show False using load_object_fresh[OF lo nc2] by simp
qed

lemma del_store_result:
  "del_store objs st = (Return (), st') \<Longrightarrow>
   ghosts st' = ghosts st \<and> cache st' = cache st
   \<and> (\<forall>x \<in> set objs. oi_store (infos st' x) = None)
   \<and> (\<forall>x. oi_store (infos st x) = None \<longrightarrow> oi_store (infos st' x) = None)"
proof (induction objs arbitrary: st)
  case Nil
  then show ?case by simp
next
  case (Cons obj objs)
  let ?s = "upd_info st obj (\<lambda>i. i\<lparr>oi_store := None\<rparr>)"
  have rec: "del_store objs ?s = (Return (), st')"
    using Cons.prems by (simp split: if_splits)
  from Cons.IH[OF rec] show ?case
    by (auto simp: upd_info_def split: if_splits)
qed

lemma fold_save_store:
  "oi_store (infos (fold (\<lambda>obj s. upd_info s obj save) objs st) x) = oi_store (infos st x)"
  by (induction objs arbitrary: st) (simp_all add: upd_info_def save_def)

lemma fold_save_ghosts:
  "ghosts (fold (\<lambda>obj s. upd_info s obj save) objs st) = ghosts st"
  by (induction objs arbitrary: st) (simp_all add: upd_info_def)

lemma commit_purges_ghosts:
  assumes "commit db st = (Return (), st')" and "obj \<in> set (ghosts st)" and "obj \<notin> set (dirty st)"
  shows "ghosts st' = []" and "oi_store (infos st' obj) = None"
proof -
  obtain st1 where fl: "flush db st = (Return (), st1)"
    and r1: "(case connection_commit db st1 of
             (Raise e, st2) \<Rightarrow> (Raise e, st2)
           | (Return _, st2) \<Rightarrow>
               (case del_store (ghosts st2) st2 of
                  (Raise e, st3) \<Rightarrow> (Raise e, st3)
                | (Return _, st3) \<Rightarrow>
                    (Return (), (fold (\<lambda>obj s. upd_info s obj save) (map snd (cache st3)) st3)
                                  \<lparr>ghosts := []\<rparr>))) = (Return (), st')"
    using assms(1) unfolding commit_def by (auto elim!: bind_cases)
  obtain st2 where cc: "connection_commit db st1 = (Return (), st2)"
    and r2: "(case del_store (ghosts st2) st2 of
                  (Raise e, st3) \<Rightarrow> (Raise e, st3)
                | (Return _, st3) \<Rightarrow>
                    (Return (), (fold (\<lambda>obj s. upd_info s obj save) (map snd (cache st3)) st3)
                                  \<lparr>ghosts := []\<rparr>)) = (Return (), st')"
    using r1 by (auto elim!: bind_cases)
  obtain st3 where ds: "del_store (ghosts st2) st2 = (Return (), st3)"
    and st': "st' = (fold (\<lambda>obj s. upd_info s obj save) (map snd (cache st3)) st3)\<lparr>ghosts := []\<rparr>"
    using r2 by (auto elim!: bind_cases)
  obtain st0 where l: "flush_loop (predecessors (order st)) db st = (Return (), st0)"
    and st1: "st1 = st0\<lparr>order := []\<rparr>"
    using fl by (auto simp: flush_def split: prod.splits outcome.splits)
  have "obj \<in> set (ghosts st0)" using flush_loop_frame[OF l assms(3)] assms(2) by simp
  moreover have "ghosts st2 = ghosts st1"
    using cc by (auto simp: connection_commit_def split: reply.splits)
  ultimately have g2: "obj \<in> set (ghosts st2)" by (simp add: st1)
  show "ghosts st' = []" by (simp add: st')
  have "oi_store (infos st3 obj) = None" using del_store_result[OF ds] g2 by blast
  then show "oi_store (infos st' obj) = None" by (simp add: st' fold_save_store)
qed

text \<open>
  C3 (amended). Let an object be dirty and scheduled to be removed, cached at most under
  its class and primary values, and let \<open>flush\<close> return. Then the object is a
  ghost, it is the value of no cache entry any more (the flush that makes it a ghost has
  purged its entry), and no later \<open>get\<close>, for any class, key and database, returns
  it. A \<open>commit\<close> that returns afterwards empties the ghost set and deletes the
  owner of the object.
\<close>

theorem ghost_not_returned_and_purged:
  assumes "obj \<in> set (dirty st)" and "oi_pending (infos st obj) = Some PENDING_REMOVE"
    and "cached_only_under_key st obj" and "obj < next_obj st"
    and "flush db st = (Return (), st1)"
  shows "is_ghost st1 obj \<and> not_cached st1 obj \<and> oi_primary_values (infos st1 obj) = None
       \<and> fst (get db' st1 cls key) \<noteq> Return (Some obj)
       \<and> (commit db' st1 = (Return (), st2) \<longrightarrow>
             \<not> is_ghost st2 obj \<and> ghosts st2 = [] \<and> oi_store (infos st2 obj) = None)"
proof -
  obtain st0 where l: "flush_loop (predecessors (order st)) db st = (Return (), st0)"
    and st1: "st1 = st0\<lparr>order := []\<rparr>"
    using assms(5) by (auto simp: flush_def split: prod.splits outcome.splits)
  have p: "obj \<in> set (ghosts st0)" "oi_primary_values (infos st0 obj) = None" "not_cached st0 obj"
    using flush_loop_pending_remove[OF l assms(1,2,3)] by auto
  have d0: "dirty st0 = []" using flush_loop_trace[OF l] by auto
  have n0: "next_obj st0 = next_obj st" by (rule next_obj_flush_loop[OF l])
  have g1: "is_ghost st1 obj" using p(1) by (simp add: st1 is_ghost_def)
  have c1: "not_cached st1 obj" using p(3) by (simp add: st1 not_cached_def)
  have v1: "oi_primary_values (infos st1 obj) = None" using p(2) by (simp add: st1)
  have d1: "obj \<notin> set (dirty st1)" using d0 by (simp add: st1)
  have n1: "obj < next_obj st1" using n0 assms(4) by (simp add: st1)
  have "fst (get db' st1 cls key) \<noteq> Return (Some obj)"
    by (rule get_never_returns_uncached[OF c1 d1 n1])
  moreover have "commit db' st1 = (Return (), st2) \<longrightarrow>
             \<not> is_ghost st2 obj \<and> ghosts st2 = [] \<and> oi_store (infos st2 obj) = None"
  proof
    assume c: "commit db' st1 = (Return (), st2)"
    have "obj \<in> set (ghosts st1)" using g1 by (simp add: is_ghost_def)
    from commit_purges_ghosts[OF c this d1]
    show "\<not> is_ghost st2 obj \<and> ghosts st2 = [] \<and> oi_store (infos st2 obj) = None"
      by (simp add: is_ghost_def)
  qed
  ultimately show ?thesis using g1 c1 v1 by simp
qed

lemmas eval_remove = remove_def Let_def upd_info_def set_dirty_def flush_def flush_loop.simps
  predecessors_def flush_one_def set_clean_def flush_pending_remove_def execute_def db_rows_def
  disable_change_notification_def set_ghost_def remove_from_cache_def emit_flushed_def
  new_obj_info_def

lemma removed_store_eq:
  "removed_store = flushed_store\<lparr>infos := (infos flushed_store)
       (2 := (infos flushed_store 2)\<lparr>oi_pending := Some PENDING_REMOVE\<rparr>), dirty := [2]\<rparr>"
  by (simp add: removed_store_def flushed_store_eq eval_remove)

lemma ghost_flush: "flush (db_rows []) removed_store = (Return (), ghost_store)"
  by (simp add: ghost_store_def removed_store_eq flushed_store_eq eval_remove)

lemma ghost_store_eq:
  "ghost_store = \<lparr>self_id = 1,
     infos = (\<lambda>obj. new_obj_info Foo)
       (2 := \<lparr>oi_cls = Foo, oi_store = Some 1, oi_pending = None,
               oi_primary_values = None,
               oi_values = [(''id'', PyInt 5), (''title'', PyStr ''a'')],
               oi_checkpoint = [(''id'', PyInt 5), (''title'', PyStr ''a'')],
               oi_saved = Some (None, None, None, [(''id'', PyInt 5), (''title'', PyStr ''a'')]),
               oi_changed_hook = False\<rparr>),
     next_obj = 100, cache = [], ghosts = [2], dirty = [], order = [],
     calls = [Execute (Insert [''id'', ''title''] [PyInt 5, PyStr ''a''] ''foo''),
              Execute (Delete (CompareColumns [''id''] [PyInt 5]) ''foo'')],
     flushed = [2, 2]\<rparr>"
  by (simp add: ghost_store_def removed_store_eq flushed_store_eq eval_remove Foo_def)

text \<open>
  The claim as stated fails in its second part: the cache entry of the object of
  \<open>flushed_store\<close> is still there after \<open>remove\<close> and is gone after the
  flush, when the object is a ghost, still owned by the store, and the connection has seen
  no commit.
\<close>

theorem ghost_cache_counterexample:
  "map_of (cache flushed_store) (Foo, [PyInt 5]) = Some 2
   \<and> fst (remove flushed_store 2) = Return ()
   \<and> map_of (cache removed_store) (Foo, [PyInt 5]) = Some 2
   \<and> flush (db_rows []) removed_store = (Return (), ghost_store)
   \<and> is_ghost ghost_store 2
   \<and> cache ghost_store = []
   \<and> oi_store (infos ghost_store 2) = Some 1
   \<and> ConnCommit \<notin> set (calls ghost_store)"
proof -
  have "fst (remove flushed_store 2) = Return ()"
    by (simp add: flushed_store_eq eval_remove)
  moreover have "map_of (cache flushed_store) (Foo, [PyInt 5]) = Some 2"
      "map_of (cache removed_store) (Foo, [PyInt 5]) = Some 2"
    by (simp_all add: removed_store_eq flushed_store_eq)
  moreover have "is_ghost ghost_store 2" "cache ghost_store = []"
      "oi_store (infos ghost_store 2) = Some 1" "ConnCommit \<notin> set (calls ghost_store)"
    by (simp_all add: ghost_store_eq is_ghost_def)
  ultimately show ?thesis using ghost_flush by simp
qed

theorem ghost_not_returned_and_purged_witness:
  "2 \<in> set (dirty removed_store) \<and> oi_pending (infos removed_store 2) = Some PENDING_REMOVE
   \<and> cached_only_under_key removed_store 2 \<and> 2 < next_obj removed_store
   \<and> flush (db_rows []) removed_store = (Return (), ghost_store)
   \<and> is_ghost ghost_store 2 \<and> not_cached ghost_store 2
   \<and> fst (get (db_rows [[PyInt 5, PyStr ''a'']]) ghost_store Foo (PyInt 5)) \<noteq> Return (Some 2)
   \<and> fst (get (db_rows [[PyInt 5, PyStr ''a'']]) ghost_store Foo (PyInt 5)) = Return (Some 100)
   \<and> fst (get (db_rows []) ghost_store Foo (PyInt 5)) = Return None
   \<and> fst (commit (db_rows []) ghost_store) = Return ()
   \<and> ghosts (snd (commit (db_rows []) ghost_store)) = []
   \<and> oi_store (infos (snd (commit (db_rows []) ghost_store)) 2) = None"
proof -
  let ?c = "snd (commit (db_rows []) ghost_store)"
  have h1: "2 \<in> set (dirty removed_store)" "oi_pending (infos removed_store 2) = Some PENDING_REMOVE"
      "2 < next_obj removed_store"
    by (simp_all add: removed_store_eq flushed_store_eq)
  have h2: "cached_only_under_key removed_store 2"
    by (simp add: cached_only_under_key_def removed_store_eq flushed_store_eq)
  have h3: "fst (commit (db_rows []) ghost_store) = Return ()"
    by (simp add: commit_def ghost_store_eq flush_def flush_loop.simps connection_commit_def
          db_rows_def upd_info_def)
  then have h4: "commit (db_rows []) ghost_store = (Return (), ?c)"
    by (cases "commit (db_rows []) ghost_store") simp
  have e1: "fst (get (db_rows [[PyInt 5, PyStr ''a'']]) ghost_store Foo (PyInt 5)) = Return (Some 100)"
    by (simp add: ghost_store_eq get_def key_tuple_def Let_def flush_def flush_loop.simps Foo_def
          execute_def db_rows_def get_one_def load_object_def primary_key_pos_def set_values_def
          set_value_def upd_info_def new_obj_info_def get_value_def add_to_cache_def save_def
          enable_change_notification_def from_database_def)
  have e2: "fst (get (db_rows []) ghost_store Foo (PyInt 5)) = Return None"
    by (simp add: ghost_store_eq get_def key_tuple_def Let_def flush_def flush_loop.simps Foo_def
          execute_def db_rows_def get_one_def)
  note A = ghost_not_returned_and_purged[OF h1(1,2) h2 h1(3) ghost_flush,
             of "db_rows [[PyInt 5, PyStr ''a'']]" Foo "PyInt 5" ?c]
  note B = ghost_not_returned_and_purged[OF h1(1,2) h2 h1(3) ghost_flush,
             of "db_rows []" Foo "PyInt 5" ?c]
  have a: "is_ghost ghost_store 2" "not_cached ghost_store 2"
      "fst (get (db_rows [[PyInt 5, PyStr ''a'']]) ghost_store Foo (PyInt 5)) \<noteq> Return (Some 2)"
    using A by simp_all
  have b: "ghosts ?c = []" "oi_store (infos ?c 2) = None"
    using B h4 by simp_all
  show ?thesis using h1 h2 h3 ghost_flush a b e1 e2 by simp
qed

section \<open>An added object is found in the identity cache\<close>






























lemmas eval_repl = repl_store_def store0_def new_obj_info_def eval_store eval_remove
  flush_pending_remove_def disable_change_notification_def set_ghost_def remove_from_cache_def
  add_flush_order_def




text \<open>
  The condition on the order is needed. On \<open>late_store\<close> the row of object 2 is
  inserted while the row of object 1 still holds the key; a database that lets this pass
  makes the flush return, the deletion of object 1 then takes the cache entry of the key
  with it, and \<open>get\<close> asks the database again.
\<close>

lemma insert_before_delete_loses_entry:
  "fst (add late_store 2) = Return ()
   \<and> fst (flush (db_rows []) (snd (add late_store 2))) = Return ()
   \<and> calls (snd (flush (db_rows []) (snd (add late_store 2))))
       = [Execute (Insert [''id'', ''title''] [PyInt 5, PyStr ''b''] ''foo''),
          Execute (Delete (CompareColumns [''id''] [PyInt 5]) ''foo'')]
   \<and> cache (snd (flush (db_rows []) (snd (add late_store 2)))) = []
   \<and> fst (get (db_rows []) (snd (flush (db_rows []) (snd (add late_store 2)))) Foo (PyInt 5))
       = Return None"
  by (simp add: late_store_def eval_repl get_def key_tuple_def get_one_def)


end
